theory Spec2Isabelle
  imports Complex_Main "HOL-Library.Word"
begin

section \<open>Regular expressions, as far as \<open>hexToRgb\<close> uses them\<close>

text \<open>
  \<open>hexToRgb\<close> matches its argument against
  \<^verbatim>\<open>/^#?([a-f\d]{2})([a-f\d]{2})([a-f\d]{2})$/i\<close>.
  The pattern is a value of the datatype below; \<open>Class\<close> lists the members of a
  character class (\<^verbatim>\<open>[a-f\d]\<close> is \<open>abcdef0123456789\<close>). The matcher is a backtracking one:
  it returns, in the order in which the engine would try them, every way to match a prefix
  of the input, as the captured groups and the rest of the input. The flag \<open>i\<close> compares
  characters after \<open>canonicalize\<close>, which maps a letter to its upper case. The anchors
  \<open>^\<close> and \<open>$\<close> are in \<open>regex_exec\<close>: the match starts at the first character and the
  rest must be empty. Strings are strings of 8-bit characters.
\<close>

datatype regex =
    Lit char
  | Class string
  | Optional regex
  | Concat regex regex
  | Repeat nat regex
  | Group regex

definition canonicalize :: "bool \<Rightarrow> char \<Rightarrow> char" where
  "canonicalize ignoreCase c =
     (if ignoreCase
      then (case map_of (zip ''abcdefghijklmnopqrstuvwxyz'' ''ABCDEFGHIJKLMNOPQRSTUVWXYZ'') c of
              Some u \<Rightarrow> u
            | None \<Rightarrow> c)
      else c)"

fun weight :: "regex \<Rightarrow> nat" where
  "weight (Lit c) = 1"
| "weight (Class cs) = 1"
| "weight (Optional r) = Suc (weight r)"
| "weight (Concat a b) = Suc (weight a + weight b)"
| "weight (Repeat n r) = Suc (n + weight r)"
| "weight (Group r) = Suc (weight r)"

function rmatch :: "bool \<Rightarrow> regex \<Rightarrow> string \<Rightarrow> (string list \<times> string) list" where
  "rmatch ic (Lit c) s =
     (case s of [] \<Rightarrow> []
      | x # xs \<Rightarrow> if canonicalize ic x = canonicalize ic c then [([], xs)] else [])"
| "rmatch ic (Class cs) s =
     (case s of [] \<Rightarrow> []
      | x # xs \<Rightarrow> if canonicalize ic x \<in> set (map (canonicalize ic) cs) then [([], xs)] else [])"
| "rmatch ic (Optional r) s = rmatch ic r s @ [([], s)]"
| "rmatch ic (Concat a b) s =
     concat (map (\<lambda>(c1, s1). map (\<lambda>(c2, s2). (c1 @ c2, s2)) (rmatch ic b s1)) (rmatch ic a s))"
| "rmatch ic (Repeat 0 r) s = [([], s)]"
| "rmatch ic (Repeat (Suc n) r) s =
     concat (map (\<lambda>(c1, s1). map (\<lambda>(c2, s2). (c1 @ c2, s2)) (rmatch ic (Repeat n r) s1))
                 (rmatch ic r s))"
| "rmatch ic (Group r) s =
     map (\<lambda>(c, s'). (take (length s - length s') s # c, s')) (rmatch ic r s)"
  by pat_completeness auto
termination
  by (relation "measure (\<lambda>(ic, r, s). weight r)") auto

definition regex_exec :: "bool \<Rightarrow> regex \<Rightarrow> string \<Rightarrow> string list option" where
  "regex_exec ic r s =
     (case filter (\<lambda>(c, rest). rest = []) (rmatch ic r s) of
        [] \<Rightarrow> None
      | (c, rest) # more \<Rightarrow> Some (s # c))"

definition hexByte :: regex where
  "hexByte = Group (Repeat 2 (Class ''abcdef0123456789''))"

definition hexPattern :: regex where
  "hexPattern = Concat (Optional (Lit CHR ''#'')) (Concat hexByte (Concat hexByte hexByte))"

text \<open>
  \<open>parseInt(s, 16)\<close> on a string without white space, sign or prefix, which the captured
  groups are: the value of the longest prefix of digits, \<open>NaN\<close> (here \<open>None\<close>) when that
  prefix is empty.
\<close>

definition digitValue :: "char \<Rightarrow> nat option" where
  "digitValue c =
     map_of [(CHR ''0'', 0), (CHR ''1'', 1), (CHR ''2'', 2), (CHR ''3'', 3), (CHR ''4'', 4),
             (CHR ''5'', 5), (CHR ''6'', 6), (CHR ''7'', 7), (CHR ''8'', 8), (CHR ''9'', 9),
             (CHR ''a'', 10), (CHR ''b'', 11), (CHR ''c'', 12), (CHR ''d'', 13),
             (CHR ''e'', 14), (CHR ''f'', 15),
             (CHR ''A'', 10), (CHR ''B'', 11), (CHR ''C'', 12), (CHR ''D'', 13),
             (CHR ''E'', 14), (CHR ''F'', 15)] c"

fun parseDigits :: "nat \<Rightarrow> string \<Rightarrow> nat" where
  "parseDigits acc [] = acc"
| "parseDigits acc (c # cs) =
     (case digitValue c of None \<Rightarrow> acc | Some d \<Rightarrow> parseDigits (16 * acc + d) cs)"

definition parseInt16 :: "string \<Rightarrow> nat option" where
  "parseInt16 s =
     (case s of [] \<Rightarrow> None
      | c # cs \<Rightarrow> (case digitValue c of None \<Rightarrow> None | Some d \<Rightarrow> Some (parseDigits 0 s)))"

text \<open>
  The value \<open>{ r, g, b }\<close> that \<open>hexToRgb\<close> returns. A component is the result of
  \<open>parseInt\<close>: \<open>None\<close> stands for \<open>NaN\<close>.
\<close>

record ColorRgb =
  r :: "nat option"
  g :: "nat option"
  b :: "nat option"

text \<open>\<open>hexToRgb\<close> of the outline variant of \<open>focusPeaking.ts\<close>; the dotted variant and the
  worker script of the third variant have the same text.\<close>

definition hexToRgb :: "string \<Rightarrow> ColorRgb" where
  "hexToRgb hex =
     (case regex_exec True hexPattern hex of
        Some [whole, r1, r2, r3] \<Rightarrow>
          \<lparr>r = parseInt16 r1, g = parseInt16 r2, b = parseInt16 r3\<rparr>
      | _ \<Rightarrow> \<lparr>r = Some 255, g = Some 0, b = Some 0\<rparr>)"

text \<open>\<open>hexToRgb\<close> of the worker-based variant of \<open>focusPeaking.ts\<close> (main thread): the same
  pattern, another default.\<close>

definition hexToRgb_v3 :: "string \<Rightarrow> ColorRgb" where
  "hexToRgb_v3 hex =
     (case regex_exec True hexPattern hex of
        Some [whole, r1, r2, r3] \<Rightarrow>
          \<lparr>r = parseInt16 r1, g = parseInt16 r2, b = parseInt16 r3\<rparr>
      | _ \<Rightarrow> \<lparr>r = Some 255, g = Some 74, b = Some 74\<rparr>)"

section \<open>Typed arrays and the canvas\<close>

text \<open>
  A JavaScript number is an IEEE double. A finite double is a real number, and an
  operation on doubles is the exact operation followed by \<open>fl64\<close>, which rounds a real
  number to the nearest number with a significand of 53 bits, halves to the even
  significand. A decimal literal of the source is \<open>fl64\<close> of the decimal. \<open>Math.min\<close>,
  \<open>Math.round\<close>, the comparisons and the conversions of the typed arrays are exact
  functions of their arguments; \<open>Math.sqrt\<close> is \<open>fl64\<close> of the square root.

  The exponent is not bounded here and \<open>NaN\<close> and the infinities are not values of
  \<open>threshold\<close> or \<open>intensity\<close>. A product that overflows or underflows in the program
  goes through \<open>Math.min(255, _)\<close> and the clamped store, which treat an infinity as they
  treat any number above 255 or below 0, and a subnormal number as they treat 0.

  Bytes of a \<open>Uint8Array\<close> or \<open>Uint8ClampedArray\<close> are 8-bit words. A typed array
  ignores a write out of range, as \<open>xs[i := v]\<close> does; a read out of range yields
  \<open>undefined\<close>, which is written out wherever the source reads pixel data.
\<close>

definition roundHalfEven :: "real \<Rightarrow> int" where
  "roundHalfEven z =
     (let f = \<lfloor>z\<rfloor>
      in if z < of_int f + 1 / 2 then f
         else if of_int f + 1 / 2 < z then f + 1
         else if even f then f else f + 1)"

text \<open>The exponent \<open>e\<close> of a number other than 0: \<open>2\<^sup>e \<le> \<bar>x\<bar> < 2\<^sup>e\<^sup>+\<^sup>1\<close>.\<close>

definition exponent :: "real \<Rightarrow> int" where
  "exponent x = \<lfloor>log 2 \<bar>x\<bar>\<rfloor>"

definition fl64 :: "real \<Rightarrow> real" where
  "fl64 x =
     (if x = 0 then 0
      else (let ulp = 2 powi (exponent x - 52)
            in of_int (roundHalfEven (x / ulp)) * ulp))"

definition fadd :: "real \<Rightarrow> real \<Rightarrow> real" where
  "fadd x y = fl64 (x + y)"

definition fsub :: "real \<Rightarrow> real \<Rightarrow> real" where
  "fsub x y = fl64 (x - y)"

definition fmul :: "real \<Rightarrow> real \<Rightarrow> real" where
  "fmul x y = fl64 (x * y)"

type_synonym byte = "8 word"

text \<open>Storing an integer-valued number into a \<open>Uint8Array\<close>: modulo 256.\<close>

definition ToUint8 :: "int \<Rightarrow> byte" where
  "ToUint8 n = word_of_int n"

text \<open>Storing a number into a \<open>Uint8ClampedArray\<close>: clamp, then round half to even.\<close>

definition ToUint8Clamp :: "real \<Rightarrow> byte" where
  "ToUint8Clamp number =
     (let clamped = min (max number 0) 255; f = \<lfloor>clamped\<rfloor>
      in if clamped < of_int f + 1 / 2 then word_of_int f
         else if of_int f + 1 / 2 < clamped then word_of_int (f + 1)
         else if even f then word_of_int f else word_of_int (f + 1))"

text \<open>Storing a colour component: \<open>NaN\<close> is stored as 0.\<close>

definition storeComponent :: "nat option \<Rightarrow> byte" where
  "storeComponent n = (case n of None \<Rightarrow> 0 | Some k \<Rightarrow> ToUint8Clamp (real k))"

datatype error = IndexSizeError

record Sized =
  width :: nat
  height :: nat

record ImageData = Sized +
  data :: "byte list"

record HTMLCanvasElement = Sized +
  context2d :: bool
  bitmap :: "byte list"

text \<open>The video with its current frame: \<open>4 * videoWidth * videoHeight\<close> bytes, RGBA.\<close>

record HTMLVideoElement =
  videoWidth :: nat
  videoHeight :: nat
  frame :: "byte list"

text \<open>\<open>document.createElement('canvas').getContext('2d')\<close> may answer \<open>null\<close>.\<close>

record Document =
  offscreenContext2d :: bool

definition resize :: "HTMLCanvasElement \<Rightarrow> nat \<Rightarrow> nat \<Rightarrow> HTMLCanvasElement" where
  "resize canvas w h = canvas\<lparr>width := w, height := h, bitmap := replicate (4 * w * h) 0\<rparr>"

definition clearRect :: "HTMLCanvasElement \<Rightarrow> HTMLCanvasElement" where
  "clearRect canvas = canvas\<lparr>bitmap := replicate (4 * width canvas * height canvas) 0\<rparr>"

text \<open>
  \<open>drawImage(videoElement, 0, 0)\<close> on the off-screen canvas followed by \<open>getImageData\<close>
  of the whole canvas: the RGBA bytes of the current frame, row by row. \<open>getImageData\<close>
  and \<open>new ImageData\<close> throw \<open>IndexSizeError\<close> on an empty rectangle.
\<close>

definition getImageData :: "HTMLVideoElement \<Rightarrow> nat \<Rightarrow> nat \<Rightarrow> error + ImageData" where
  "getImageData video w h =
     (if w = 0 \<or> h = 0 then Inl IndexSizeError
      else Inr \<lparr>width = w, height = h, data = frame video\<rparr>)"

definition newImageData :: "nat \<Rightarrow> nat \<Rightarrow> error + ImageData" where
  "newImageData w h =
     (if w = 0 \<or> h = 0 then Inl IndexSizeError
      else Inr \<lparr>width = w, height = h, data = replicate (4 * w * h) 0\<rparr>)"

definition putImageData :: "HTMLCanvasElement \<Rightarrow> ImageData \<Rightarrow> HTMLCanvasElement" where
  "putImageData canvas imageData = canvas\<lparr>bitmap := data imageData\<rparr>"

section \<open>\<open>processFrame\<close>, outline variant\<close>

text \<open>
  \<open>Math.round(data[idx] * 0.299 + data[idx + 1] * 0.587 + data[idx + 2] * 0.114)\<close>, stored
  into the \<open>Uint8Array\<close>. A read past the end gives \<open>NaN\<close>, stored as 0.
\<close>

definition grayValue :: "byte list \<Rightarrow> nat \<Rightarrow> byte" where
  "grayValue pixels idx =
     (if idx + 2 < length pixels
      then ToUint8 (round (fadd (fadd (fmul (real (unat (pixels ! idx))) (fl64 0.299))
                                      (fmul (real (unat (pixels ! (idx + 1)))) (fl64 0.587)))
                                (fmul (real (unat (pixels ! (idx + 2)))) (fl64 0.114))))
      else 0)"

function grayscale_row :: "byte list \<Rightarrow> nat \<Rightarrow> nat \<Rightarrow> nat \<Rightarrow> byte list \<Rightarrow> byte list" where
  "grayscale_row pixels w y x grayscale =
     (if x < w
      then grayscale_row pixels w y (x + 1)
             (grayscale[y * w + x := grayValue pixels ((y * w + x) * 4)])
      else grayscale)"
  by pat_completeness auto
termination
  by (relation "measure (\<lambda>(pixels, w, y, x, grayscale). w - x)") auto

function grayscale_rows :: "byte list \<Rightarrow> nat \<Rightarrow> nat \<Rightarrow> nat \<Rightarrow> byte list \<Rightarrow> byte list" where
  "grayscale_rows pixels w h y grayscale =
     (if y < h
      then grayscale_rows pixels w h (y + 1) (grayscale_row pixels w y 0 grayscale)
      else grayscale)"
  by pat_completeness auto
termination
  by (relation "measure (\<lambda>(pixels, w, h, y, grayscale). h - y)") auto

definition computeGrayscale :: "byte list \<Rightarrow> nat \<Rightarrow> nat \<Rightarrow> byte list" where
  "computeGrayscale pixels w h = grayscale_rows pixels w h 0 (replicate (w * h) 0)"

text \<open>
  The square root of \<open>gx*gx + gy*gy\<close>, an integer below \<open>2 ^ 53\<close>. The loop body reads
  \<open>center\<close> too and never uses it. \<open>Math.sqrt\<close> returns the double nearest to this
  root: \<open>outline_pixel\<close> compares and subtracts \<open>fl64\<close> of it.
\<close>

definition edgeResponse :: "byte list \<Rightarrow> nat \<Rightarrow> nat \<Rightarrow> nat \<Rightarrow> real" where
  "edgeResponse grayscale w y x =
     (let top = uint (grayscale ! ((y - 1) * w + x));
          bottom = uint (grayscale ! ((y + 1) * w + x));
          left = uint (grayscale ! (y * w + (x - 1)));
          right = uint (grayscale ! (y * w + (x + 1)));
          gx = \<bar>right - left\<bar>;
          gy = \<bar>bottom - top\<bar>
      in sqrt (of_int (gx * gx + gy * gy)))"

definition outline_pixel ::
  "byte list \<Rightarrow> nat \<Rightarrow> ColorRgb \<Rightarrow> real \<Rightarrow> real \<Rightarrow> nat \<Rightarrow> nat \<Rightarrow> byte list \<Rightarrow> byte list" where
  "outline_pixel grayscale w colorRgb threshold intensity y x outlinePixels =
     (let response = fl64 (edgeResponse grayscale w y x)
      in if response > threshold
         then
           (let outlineIdx = (y * w + x) * 4;
                edgeStrength = min 255 (fmul (fsub response threshold) 2);
                alpha = min 255 (fmul edgeStrength intensity)
            in outlinePixels
                 [outlineIdx := storeComponent (r colorRgb),
                  outlineIdx + 1 := storeComponent (g colorRgb),
                  outlineIdx + 2 := storeComponent (b colorRgb),
                  outlineIdx + 3 := ToUint8Clamp alpha])
         else outlinePixels)"

function outline_row ::
  "byte list \<Rightarrow> nat \<Rightarrow> ColorRgb \<Rightarrow> real \<Rightarrow> real \<Rightarrow> nat \<Rightarrow> nat \<Rightarrow> byte list \<Rightarrow> byte list" where
  "outline_row grayscale w colorRgb threshold intensity y x outlinePixels =
     (if x < w - 1
      then outline_row grayscale w colorRgb threshold intensity y (x + 1)
             (outline_pixel grayscale w colorRgb threshold intensity y x outlinePixels)
      else outlinePixels)"
  by pat_completeness auto
termination
  by (relation "measure (\<lambda>(grayscale, w, colorRgb, threshold, intensity, y, x, outlinePixels). w - x)")
     auto

function outline_rows ::
  "byte list \<Rightarrow> nat \<Rightarrow> nat \<Rightarrow> ColorRgb \<Rightarrow> real \<Rightarrow> real \<Rightarrow> nat \<Rightarrow> byte list \<Rightarrow> byte list" where
  "outline_rows grayscale w h colorRgb threshold intensity y outlinePixels =
     (if y < h - 1
      then outline_rows grayscale w h colorRgb threshold intensity (y + 1)
             (outline_row grayscale w colorRgb threshold intensity y 1 outlinePixels)
      else outlinePixels)"
  by pat_completeness auto
termination
  by (relation "measure (\<lambda>(grayscale, w, h, colorRgb, threshold, intensity, y, outlinePixels). h - y)")
     auto

text \<open>
  \<open>processFrame(videoElement, canvasElement, color, threshold, enabled, intensity, mode)\<close>.
  The canvas is the state: the result is the canvas after the call, or the exception that
  \<open>getImageData\<close> throws on an empty rectangle. \<open>mode\<close> is not used.
\<close>

definition processFrame ::
  "Document \<Rightarrow> HTMLVideoElement \<Rightarrow> HTMLCanvasElement \<Rightarrow> string \<Rightarrow> real \<Rightarrow> bool \<Rightarrow> real \<Rightarrow> string
     \<Rightarrow> error + HTMLCanvasElement" where
  "processFrame document videoElement canvasElement color threshold enabled intensity mode =
     (if \<not> enabled
      then (if context2d canvasElement then Inr (clearRect canvasElement) else Inr canvasElement)
      else
        (let canvas1 =
               (if width canvasElement \<noteq> videoWidth videoElement
                   \<or> height canvasElement \<noteq> videoHeight videoElement
                then resize canvasElement (videoWidth videoElement) (videoHeight videoElement)
                else canvasElement)
         in if \<not> context2d canvas1 then Inr canvas1
            else
              (let canvas2 = clearRect canvas1
               in if \<not> offscreenContext2d document then Inr canvas2
                  else
                    (case getImageData videoElement (width canvas2) (height canvas2) of
                       Inl e \<Rightarrow> Inl e
                     | Inr imageData \<Rightarrow>
                         (let w = width canvas2;
                              h = height canvas2;
                              colorRgb = hexToRgb color;
                              grayscale = computeGrayscale (data imageData) w h
                          in case newImageData w h of
                               Inl e \<Rightarrow> Inl e
                             | Inr outlineData \<Rightarrow>
                                 Inr (putImageData canvas2
                                        (outlineData\<lparr>data :=
                                           outline_rows grayscale w h colorRgb threshold intensity 1
                                             (data outlineData)\<rparr>)))))))"

section \<open>The worker-based variant: \<open>applyFocusPeaking\<close>\<close>

text \<open>\<open>resultData[idx] = data[idx]\<close>: \<open>undefined\<close> is stored as 0.\<close>

definition copyByte :: "byte list \<Rightarrow> nat \<Rightarrow> byte" where
  "copyByte pixels idx = (if idx < length pixels then pixels ! idx else 0)"

text \<open>
  The body of the Sobel loop of \<open>applyFocusPeaking\<close>. The source calls the neighbours
  \<open>tl, t, tr, l, r, bl, b, br\<close> and the magnitude \<open>g\<close>; here \<open>r\<close>, \<open>g\<close> and \<open>b\<close> name
  the components of the colour, so the neighbours carry longer names.
\<close>

definition sobel_pixel ::
  "byte list \<Rightarrow> byte list \<Rightarrow> nat \<Rightarrow> ColorRgb \<Rightarrow> real \<Rightarrow> nat \<Rightarrow> nat \<Rightarrow> byte list \<Rightarrow> byte list" where
  "sobel_pixel pixels grayscale w highlightColor threshold y x resultData =
     (let topLeft = uint (grayscale ! ((y - 1) * w + (x - 1)));
          top = uint (grayscale ! ((y - 1) * w + x));
          topRight = uint (grayscale ! ((y - 1) * w + (x + 1)));
          left = uint (grayscale ! (y * w + (x - 1)));
          right = uint (grayscale ! (y * w + (x + 1)));
          bottomLeft = uint (grayscale ! ((y + 1) * w + (x - 1)));
          bottom = uint (grayscale ! ((y + 1) * w + x));
          bottomRight = uint (grayscale ! ((y + 1) * w + (x + 1)));
          gx = - topLeft - 2 * left - bottomLeft + topRight + 2 * right + bottomRight;
          gy = - topLeft - 2 * top - topRight + bottomLeft + 2 * bottom + bottomRight;
          magnitude = fl64 (sqrt (of_int (gx * gx + gy * gy)));
          idx = (y * w + x) * 4;
          copied = resultData
                     [idx := copyByte pixels idx,
                      idx + 1 := copyByte pixels (idx + 1),
                      idx + 2 := copyByte pixels (idx + 2),
                      idx + 3 := 255]
      in if magnitude > threshold
         then copied
                [idx := storeComponent (r highlightColor),
                 idx + 1 := storeComponent (g highlightColor),
                 idx + 2 := storeComponent (b highlightColor),
                 idx + 3 := 255]
         else copied[idx + 3 := 0])"

function sobel_row ::
  "byte list \<Rightarrow> byte list \<Rightarrow> nat \<Rightarrow> ColorRgb \<Rightarrow> real \<Rightarrow> nat \<Rightarrow> nat \<Rightarrow> byte list \<Rightarrow> byte list" where
  "sobel_row pixels grayscale w highlightColor threshold y x resultData =
     (if x < w - 1
      then sobel_row pixels grayscale w highlightColor threshold y (x + 1)
             (sobel_pixel pixels grayscale w highlightColor threshold y x resultData)
      else resultData)"
  by pat_completeness auto
termination
  by (relation "measure (\<lambda>(pixels, grayscale, w, highlightColor, threshold, y, x, resultData). w - x)")
     auto

function sobel_rows ::
  "byte list \<Rightarrow> byte list \<Rightarrow> nat \<Rightarrow> nat \<Rightarrow> ColorRgb \<Rightarrow> real \<Rightarrow> nat \<Rightarrow> byte list \<Rightarrow> byte list" where
  "sobel_rows pixels grayscale w h highlightColor threshold y resultData =
     (if y < h - 1
      then sobel_rows pixels grayscale w h highlightColor threshold (y + 1)
             (sobel_row pixels grayscale w highlightColor threshold y 1 resultData)
      else resultData)"
  by pat_completeness auto
termination
  by (relation "measure (\<lambda>(pixels, grayscale, w, h, highlightColor, threshold, y, resultData). h - y)")
     auto

text \<open>The loop commented \<open>Set border pixels\<close>.\<close>

definition border_pixel :: "nat \<Rightarrow> nat \<Rightarrow> nat \<Rightarrow> nat \<Rightarrow> byte list \<Rightarrow> byte list" where
  "border_pixel w h y x resultData =
     (if y = 0 \<or> y = h - 1 \<or> x = 0 \<or> x = w - 1
      then resultData[(y * w + x) * 4 + 3 := 0]
      else resultData)"

function border_row :: "nat \<Rightarrow> nat \<Rightarrow> nat \<Rightarrow> nat \<Rightarrow> byte list \<Rightarrow> byte list" where
  "border_row w h y x resultData =
     (if x < w then border_row w h y (x + 1) (border_pixel w h y x resultData) else resultData)"
  by pat_completeness auto
termination
  by (relation "measure (\<lambda>(w, h, y, x, resultData). w - x)") auto

function border_rows :: "nat \<Rightarrow> nat \<Rightarrow> nat \<Rightarrow> byte list \<Rightarrow> byte list" where
  "border_rows w h y resultData =
     (if y < h then border_rows w h (y + 1) (border_row w h y 0 resultData) else resultData)"
  by pat_completeness auto
termination
  by (relation "measure (\<lambda>(w, h, y, resultData). h - y)") auto

text \<open>
  \<open>applyFocusPeaking(imageData, threshold, colorHex)\<close> of the worker script. Its
  \<open>hexToRgb\<close> and its luminance loop have the text of the outline variant's.
\<close>

definition applyFocusPeaking :: "ImageData \<Rightarrow> real \<Rightarrow> string \<Rightarrow> error + ImageData" where
  "applyFocusPeaking imageData threshold colorHex =
     (let w = width imageData;
          h = height imageData;
          pixels = data imageData
      in case newImageData w h of
           Inl e \<Rightarrow> Inl e
         | Inr result \<Rightarrow>
             (let highlightColor = hexToRgb colorHex;
                  grayscale = computeGrayscale pixels w h;
                  sobel = sobel_rows pixels grayscale w h highlightColor threshold 1 (data result)
              in Inr (result\<lparr>data := border_rows w h 0 sobel\<rparr>)))"

section \<open>Notions of the specification\<close>

text \<open>\<open>clamp(lo, hi, v)\<close> as the specification writes it.\<close>

definition clamp :: "real \<Rightarrow> real \<Rightarrow> real \<Rightarrow> real" where
  "clamp lo hi v = max lo (min hi v)"

text \<open>The luminance that the buffer holds for pixel \<open>(x, y)\<close> of a frame \<open>w\<close> pixels wide.\<close>

definition luminanceAt :: "byte list \<Rightarrow> nat \<Rightarrow> nat \<Rightarrow> nat \<Rightarrow> int" where
  "luminanceAt pixels w x y = uint (grayValue pixels ((y * w + x) * 4))"

text \<open>Channel \<open>j\<close> (0 red, 1 green, 2 blue, 3 alpha) of pixel \<open>(x, y)\<close> of the canvas.\<close>

definition channelAt :: "HTMLCanvasElement \<Rightarrow> nat \<Rightarrow> nat \<Rightarrow> nat \<Rightarrow> byte" where
  "channelAt canvas x y j = bitmap canvas ! ((y * width canvas + x) * 4 + j)"

definition alphaAt :: "HTMLCanvasElement \<Rightarrow> nat \<Rightarrow> nat \<Rightarrow> byte" where
  "alphaAt canvas x y = channelAt canvas x y 3"

text \<open>The alpha of a pixel of the outcome of a call; \<open>None\<close> when the call threw.\<close>

definition alphaOf :: "error + HTMLCanvasElement \<Rightarrow> nat \<Rightarrow> nat \<Rightarrow> byte option" where
  "alphaOf outcome x y = (case outcome of Inl e \<Rightarrow> None | Inr canvas \<Rightarrow> Some (alphaAt canvas x y))"

text \<open>The number of pixels of the canvas with alpha above 0.\<close>

definition visiblePixels :: "HTMLCanvasElement \<Rightarrow> nat" where
  "visiblePixels canvas =
     length (filter (\<lambda>p. bitmap canvas ! (p * 4 + 3) \<noteq> 0) [0..<width canvas * height canvas])"

text \<open>Six hexadecimal digits, optionally preceded by \<open>#\<close>.\<close>

definition hexDigit :: "char \<Rightarrow> bool" where
  "hexDigit c = (c \<in> set ''0123456789abcdefABCDEF'')"

text \<open>The value of a hexadecimal digit, from its character code.\<close>

definition hexVal :: "char \<Rightarrow> nat" where
  "hexVal c =
     (let n = (of_char c :: nat)
      in if 48 \<le> n \<and> n \<le> 57 then n - 48
         else if 97 \<le> n \<and> n \<le> 102 then n - 87
         else if 65 \<le> n \<and> n \<le> 70 then n - 55
         else 0)"

definition sixHex :: "string \<Rightarrow> bool" where
  "sixHex ds = (length ds = 6 \<and> list_all hexDigit ds)"

definition stripHash :: "string \<Rightarrow> string" where
  "stripHash s = (case s of [] \<Rightarrow> [] | x # t \<Rightarrow> if x = CHR ''#'' then t else s)"

definition parsesAsColor :: "string \<Rightarrow> bool" where
  "parsesAsColor s = sixHex (stripHash s)"

text \<open>
  A frame of 3 by 3 pixels, black but for the grey pixel \<open>(2, 1)\<close>, a canvas that has never
  been drawn on, and a document that hands out contexts.
\<close>

definition exampleVideo :: HTMLVideoElement where
  "exampleVideo =
     \<lparr>videoWidth = 3, videoHeight = 3,
      frame = [0, 0, 0, 255,  0, 0, 0, 255,  0, 0, 0, 255,
               0, 0, 0, 255,  0, 0, 0, 255,  11, 11, 11, 255,
               0, 0, 0, 255,  0, 0, 0, 255,  0, 0, 0, 255]\<rparr>"

definition exampleCanvas :: HTMLCanvasElement where
  "exampleCanvas = \<lparr>width = 0, height = 0, context2d = True, bitmap = []\<rparr>"

definition exampleDocument :: Document where
  "exampleDocument = \<lparr>offscreenContext2d = True\<rparr>"

text \<open>
  The byte that the loop body writes at offset \<open>j\<close> of an edge pixel whose response, as
  \<open>Math.sqrt\<close> returns it, is \<open>e\<close>.
\<close>

definition outlineByte :: "ColorRgb \<Rightarrow> real \<Rightarrow> real \<Rightarrow> real \<Rightarrow> nat \<Rightarrow> byte" where
  "outlineByte colorRgb threshold intensity e j =
     (if j = 0 then storeComponent (r colorRgb)
      else if j = 1 then storeComponent (g colorRgb)
      else if j = 2 then storeComponent (b colorRgb)
      else ToUint8Clamp (min 255 (fmul (min 255 (fmul (fsub e threshold) 2)) intensity)))"

declare rmatch.simps [simp del]
declare grayscale_row.simps [simp del]
declare grayscale_rows.simps [simp del]
declare outline_row.simps [simp del]
declare outline_rows.simps [simp del]
declare sobel_row.simps [simp del]
declare sobel_rows.simps [simp del]
declare border_row.simps [simp del]
declare border_rows.simps [simp del]

section \<open>The colour parser\<close>


lemma rmatch_Repeat_2: "rmatch ic (Repeat 2 rx) s = rmatch ic (Concat rx (Concat rx (Repeat 0 rx))) s"
  by (simp add: numeral_2_eq_2 rmatch.simps)

lemma class_hex: "canonicalize True x \<in> set (map (canonicalize True) ''abcdef0123456789'') \<longleftrightarrow> hexDigit x"
  unfolding hexDigit_def by (auto simp: canonicalize_def)

lemma rmatch_class: "rmatch True (Class ''abcdef0123456789'') s =
   (case s of [] \<Rightarrow> [] | x # xs \<Rightarrow> if hexDigit x then [([], xs)] else [])"
  using class_hex by (cases s) (simp_all add: rmatch.simps)

lemma rmatch_hexByte: "rmatch True hexByte s =
   (case s of x # y # rest \<Rightarrow> if hexDigit x \<and> hexDigit y then [([[x, y]], rest)] else []
    | _ \<Rightarrow> [])"
  unfolding hexByte_def
  by (simp add: rmatch_Repeat_2 rmatch_class rmatch.simps(4,5,7) split: list.splits)

lemma rmatch_body: "rmatch True (Concat hexByte (Concat hexByte hexByte)) s =
   (case s of a1 # a2 # b1 # b2 # c1 # c2 # rest \<Rightarrow>
       if list_all hexDigit [a1, a2, b1, b2, c1, c2] then [([[a1, a2], [b1, b2], [c1, c2]], rest)] else []
    | _ \<Rightarrow> [])"
  by (simp add: rmatch_hexByte rmatch.simps(4) split: list.splits)

lemma hash_not_hex: "\<not> hexDigit CHR ''#''"
  by (simp add: hexDigit_def)

lemma body_hash: "rmatch True (Concat hexByte (Concat hexByte hexByte)) (CHR ''#'' # t) = []"
  by (simp add: rmatch_body hash_not_hex split: list.splits)

lemma body_short: "length t < 6 \<Longrightarrow> rmatch True (Concat hexByte (Concat hexByte hexByte)) t = []"
  by (auto simp: rmatch_body split: list.splits)

lemma body_long: "rmatch True (Concat hexByte (Concat hexByte hexByte)) (a1 # a2 # b1 # b2 # c1 # c2 # rest) =
   (if list_all hexDigit [a1, a2, b1, b2, c1, c2] then [([[a1, a2], [b1, b2], [c1, c2]], rest)] else [])"
  by (simp add: rmatch_body)

lemma rmatch_hexPattern: "rmatch True hexPattern s = rmatch True (Concat hexByte (Concat hexByte hexByte)) (stripHash s)"
proof (cases s)
  case Nil
  then show ?thesis
    unfolding hexPattern_def stripHash_def by (subst rmatch.simps(4)) (simp add: rmatch.simps(1,3))
next
  case (Cons x t)
  show ?thesis
  proof (cases "x = CHR ''#''")
    case True
    with Cons body_hash [of t] show ?thesis
      unfolding hexPattern_def stripHash_def by (subst rmatch.simps(4)) (simp add: rmatch.simps(1,3))
  next
    case False
    with Cons show ?thesis
      unfolding hexPattern_def stripHash_def by (subst rmatch.simps(4)) (simp add: canonicalize_def rmatch.simps(1,3))
  qed
qed

lemma long_list:
  "6 \<le> length t \<Longrightarrow> \<exists>a1 a2 b1 b2 c1 c2 rest. t = a1 # a2 # b1 # b2 # c1 # c2 # (rest::'a list)"
  by (auto simp: numeral_eq_Suc Suc_le_length_iff)

lemma six_list:
  "length t = 6 \<Longrightarrow> \<exists>a1 a2 b1 b2 c1 c2. t = [a1, a2, b1, b2, c1, c2 :: 'a]"
  by (auto simp: numeral_eq_Suc length_Suc_conv)

lemma digitValue_hex: "hexDigit c \<Longrightarrow> digitValue c = Some (hexVal c)"
  by (auto simp: hexDigit_def hexVal_def digitValue_def)

lemma parseInt16_pair:
  "hexDigit x \<Longrightarrow> hexDigit y \<Longrightarrow> parseInt16 [x, y] = Some (16 * hexVal x + hexVal y)"
  by (simp add: parseInt16_def digitValue_hex)

lemma exec_match:
  assumes "list_all hexDigit [a1, a2, b1, b2, c1, c2]"
    and "stripHash s = [a1, a2, b1, b2, c1, c2]"
  shows "regex_exec True hexPattern s = Some [s, [a1, a2], [b1, b2], [c1, c2]]"
  using assms by (simp add: regex_exec_def rmatch_hexPattern body_long)

lemma exec_no_match:
  assumes "\<not> sixHex (stripHash s)"
  shows "regex_exec True hexPattern s = None"
proof (cases "length (stripHash s) < 6")
  case True
  then show ?thesis
    by (simp add: regex_exec_def rmatch_hexPattern body_short)
next
  case False
  then obtain a1 a2 b1 b2 c1 c2 rest where t: "stripHash s = a1 # a2 # b1 # b2 # c1 # c2 # rest"
    using long_list [of "stripHash s"] by auto
  show ?thesis
  proof (cases "rest = []")
    case True
    with t assms have "\<not> list_all hexDigit [a1, a2, b1, b2, c1, c2]"
      by (simp add: sixHex_def)
    with t show ?thesis
      by (simp add: regex_exec_def rmatch_hexPattern body_long)
  next
    case False
    with t show ?thesis
      by (simp add: regex_exec_def rmatch_hexPattern body_long)
  qed
qed

lemma hexToRgb_match:
  assumes "sixHex ds" and "stripHash s = ds"
  shows "hexToRgb s = \<lparr>r = Some (16 * hexVal (ds ! 0) + hexVal (ds ! 1)),
                          g = Some (16 * hexVal (ds ! 2) + hexVal (ds ! 3)),
                          b = Some (16 * hexVal (ds ! 4) + hexVal (ds ! 5))\<rparr>"
proof -
  from assms(1) obtain a1 a2 b1 b2 c1 c2 where ds: "ds = [a1, a2, b1, b2, c1, c2]"
    using six_list [of ds] by (auto simp: sixHex_def)
  with assms(1) have h: "list_all hexDigit [a1, a2, b1, b2, c1, c2]"
    by (simp add: sixHex_def)
  with ds assms(2) have "regex_exec True hexPattern s = Some [s, [a1, a2], [b1, b2], [c1, c2]]"
    using exec_match by simp
  with h ds show ?thesis
    by (simp add: hexToRgb_def parseInt16_pair)
qed

lemma hexToRgb_no_match:
  assumes "\<not> sixHex (stripHash s)"
  shows "hexToRgb s = \<lparr>r = Some 255, g = Some 0, b = Some 0\<rparr>"
  using exec_no_match [OF assms] by (simp add: hexToRgb_def)

lemma stripHash_cases: "stripHash s = ds \<Longrightarrow> ds \<noteq> [] \<Longrightarrow> s = ds \<or> s = CHR ''#'' # ds"
  by (auto simp: stripHash_def split: list.splits if_splits)

lemma stripHash_six: "sixHex ds \<Longrightarrow> stripHash ds = ds \<and> stripHash (CHR ''#'' # ds) = ds"
  using hash_not_hex by (cases ds) (auto simp: stripHash_def sixHex_def)

text \<open>
  Claim C10. \<open>hexToRgb\<close> parses exactly the strings of six hexadecimal digits, optionally
  preceded by \<open>#\<close>, in either case, into their three bytes: \<open>#FF0000\<close>, \<open>ff0000\<close> and
  \<open>FF0000\<close> all give (255, 0, 0). Every other string, the shorthand \<open>#F00\<close> among them,
  gives the default colour. The value of a digit is \<open>hexVal\<close>, computed from the character
  code; the last four instances read each of the 22 digits once.
\<close>

theorem hexToRgb_parses_exactly_six_hex_digits:
  "(sixHex ds \<longrightarrow>
      hexToRgb ds = \<lparr>r = Some (16 * hexVal (ds ! 0) + hexVal (ds ! 1)),
                        g = Some (16 * hexVal (ds ! 2) + hexVal (ds ! 3)),
                        b = Some (16 * hexVal (ds ! 4) + hexVal (ds ! 5))\<rparr> \<and>
      hexToRgb (CHR ''#'' # ds) = hexToRgb ds) \<and>
   ((\<nexists>ds. sixHex ds \<and> (s = ds \<or> s = CHR ''#'' # ds)) \<longrightarrow>
      hexToRgb s = \<lparr>r = Some 255, g = Some 0, b = Some 0\<rparr>) \<and>
   hexToRgb ''#FF0000'' = \<lparr>r = Some 255, g = Some 0, b = Some 0\<rparr> \<and>
   hexToRgb ''ff0000'' = \<lparr>r = Some 255, g = Some 0, b = Some 0\<rparr> \<and>
   hexToRgb ''FF0000'' = \<lparr>r = Some 255, g = Some 0, b = Some 0\<rparr> \<and>
   hexToRgb ''#F00'' = \<lparr>r = Some 255, g = Some 0, b = Some 0\<rparr> \<and>
   hexToRgb ''012345'' = \<lparr>r = Some 1, g = Some 35, b = Some 69\<rparr> \<and>
   hexToRgb ''6789ab'' = \<lparr>r = Some 103, g = Some 137, b = Some 171\<rparr> \<and>
   hexToRgb ''cdefAB'' = \<lparr>r = Some 205, g = Some 239, b = Some 171\<rparr> \<and>
   hexToRgb ''#CDEF09'' = \<lparr>r = Some 205, g = Some 239, b = Some 9\<rparr>"
proof (intro conjI impI)
  assume six: "sixHex ds"
  show "hexToRgb ds = \<lparr>r = Some (16 * hexVal (ds ! 0) + hexVal (ds ! 1)),
                        g = Some (16 * hexVal (ds ! 2) + hexVal (ds ! 3)),
                        b = Some (16 * hexVal (ds ! 4) + hexVal (ds ! 5))\<rparr>"
    using hexToRgb_match [OF six] stripHash_six [OF six] by simp
  then show "hexToRgb (CHR ''#'' # ds) = hexToRgb ds"
    using hexToRgb_match [OF six] stripHash_six [OF six] by simp
next
  assume no: "\<nexists>ds. sixHex ds \<and> (s = ds \<or> s = CHR ''#'' # ds)"
  have "\<not> sixHex (stripHash s)"
  proof
    assume six: "sixHex (stripHash s)"
    then have "stripHash s \<noteq> []" by (auto simp: sixHex_def)
    with six no stripHash_cases [of s "stripHash s"] show False by auto
  qed
  then show "hexToRgb s = \<lparr>r = Some 255, g = Some 0, b = Some 0\<rparr>"
    by (rule hexToRgb_no_match)
next
  have six: "sixHex ''FF0000''" "sixHex ''ff0000''"
    by (simp_all add: sixHex_def hexDigit_def)
  show "hexToRgb ''#FF0000'' = \<lparr>r = Some 255, g = Some 0, b = Some 0\<rparr>"
    using hexToRgb_match [OF six(1), of "''#FF0000''"]
    by (simp add: stripHash_def hexVal_def)
  show "hexToRgb ''ff0000'' = \<lparr>r = Some 255, g = Some 0, b = Some 0\<rparr>"
    using hexToRgb_match [OF six(2), of "''ff0000''"]
    by (simp add: stripHash_def hexVal_def)
  show "hexToRgb ''FF0000'' = \<lparr>r = Some 255, g = Some 0, b = Some 0\<rparr>"
    using hexToRgb_match [OF six(1), of "''FF0000''"]
    by (simp add: stripHash_def hexVal_def)
  show "hexToRgb ''#F00'' = \<lparr>r = Some 255, g = Some 0, b = Some 0\<rparr>"
    by (rule hexToRgb_no_match) (simp add: stripHash_def sixHex_def)
  have more: "sixHex ''012345''" "sixHex ''6789ab''" "sixHex ''cdefAB''" "sixHex ''CDEF09''"
    by (simp_all add: sixHex_def hexDigit_def)
  show "hexToRgb ''012345'' = \<lparr>r = Some 1, g = Some 35, b = Some 69\<rparr>"
    using hexToRgb_match [OF more(1), of "''012345''"]
    by (simp add: stripHash_def hexVal_def)
  show "hexToRgb ''6789ab'' = \<lparr>r = Some 103, g = Some 137, b = Some 171\<rparr>"
    using hexToRgb_match [OF more(2), of "''6789ab''"]
    by (simp add: stripHash_def hexVal_def)
  show "hexToRgb ''cdefAB'' = \<lparr>r = Some 205, g = Some 239, b = Some 171\<rparr>"
    using hexToRgb_match [OF more(3), of "''cdefAB''"]
    by (simp add: stripHash_def hexVal_def)
  show "hexToRgb ''#CDEF09'' = \<lparr>r = Some 205, g = Some 239, b = Some 9\<rparr>"
    using hexToRgb_match [OF more(4), of "''#CDEF09''"]
    by (simp add: stripHash_def hexVal_def)
qed

theorem hexToRgb_parses_exactly_six_hex_digits_witness:
  "sixHex ''12aBcd'' \<and>
   hexToRgb ''12aBcd'' = \<lparr>r = Some 18, g = Some 171, b = Some 205\<rparr> \<and>
   hexToRgb ''#12aBcd'' = \<lparr>r = Some 18, g = Some 171, b = Some 205\<rparr> \<and>
   (\<nexists>ds. sixHex ds \<and> (''12aBc'' = ds \<or> ''12aBc'' = CHR ''#'' # ds)) \<and>
   hexToRgb ''12aBc'' = \<lparr>r = Some 255, g = Some 0, b = Some 0\<rparr>"
proof -
  have six: "sixHex ''12aBcd''"
    by (simp add: sixHex_def hexDigit_def)
  have no: "\<nexists>ds. sixHex ds \<and> (''12aBc'' = ds \<or> ''12aBc'' = CHR ''#'' # ds)"
    by (auto simp: sixHex_def)
  show ?thesis
    using six no hexToRgb_parses_exactly_six_hex_digits [of "''12aBcd''" "''12aBc''"]
    by (simp add: hexVal_def)
qed

section \<open>Rounding to a double\<close>

lemma roundHalfEven_cases:
  "(z < of_int \<lfloor>z\<rfloor> + 1 / 2 \<and> roundHalfEven z = \<lfloor>z\<rfloor>) \<or>
   (of_int \<lfloor>z\<rfloor> + 1 / 2 < z \<and> roundHalfEven z = \<lfloor>z\<rfloor> + 1) \<or>
   (z = of_int \<lfloor>z\<rfloor> + 1 / 2 \<and> even \<lfloor>z\<rfloor> \<and> roundHalfEven z = \<lfloor>z\<rfloor>) \<or>
   (z = of_int \<lfloor>z\<rfloor> + 1 / 2 \<and> odd \<lfloor>z\<rfloor> \<and> roundHalfEven z = \<lfloor>z\<rfloor> + 1)"
  unfolding roundHalfEven_def Let_def by (auto simp: not_less)

lemma roundHalfEven_near: "\<bar>of_int (roundHalfEven z) - z\<bar> \<le> 1 / 2"
proof -
  define u where "u = roundHalfEven z"
  define f where "f = \<lfloor>z\<rfloor>"
  have fl: "of_int f \<le> z" "z < of_int f + 1" unfolding f_def by linarith+
  have alt: "(z < of_int f + 1 / 2 \<and> u = f) \<or> (of_int f + 1 / 2 < z \<and> u = f + 1) \<or>
         (z = of_int f + 1 / 2 \<and> even f \<and> u = f) \<or> (z = of_int f + 1 / 2 \<and> odd f \<and> u = f + 1)"
    using roundHalfEven_cases [of z] unfolding u_def f_def .
  have "\<bar>of_int u - z\<bar> \<le> 1 / 2"
    using alt
  proof (elim disjE conjE)
    assume "z < of_int f + 1 / 2" "u = f"
    with fl show ?thesis by simp
  next
    assume "of_int f + 1 / 2 < z" "u = f + 1"
    with fl show ?thesis by simp
  next
    assume "z = of_int f + 1 / 2" "even f" "u = f"
    then show ?thesis by simp
  next
    assume "z = of_int f + 1 / 2" "odd f" "u = f + 1"
    then show ?thesis by simp
  qed
  then show ?thesis unfolding u_def .
qed

lemma roundHalfEven_of_int [simp]: "roundHalfEven (of_int n) = n"
  by (simp add: roundHalfEven_def)

lemma roundHalfEven_between:
  "\<lfloor>z\<rfloor> \<le> roundHalfEven z \<and> roundHalfEven z \<le> \<lfloor>z\<rfloor> + 1"
  using roundHalfEven_cases [of z] by auto

lemma roundHalfEven_mono:
  assumes "z \<le> z'"
  shows "roundHalfEven z \<le> roundHalfEven z'"
proof (cases "\<lfloor>z\<rfloor> = \<lfloor>z'\<rfloor>")
  case False
  with assms have "\<lfloor>z\<rfloor> < \<lfloor>z'\<rfloor>" using floor_mono [OF assms] by simp
  then have "\<lfloor>z\<rfloor> + 1 \<le> \<lfloor>z'\<rfloor>" by simp
  with roundHalfEven_between [of z] roundHalfEven_between [of z'] show ?thesis by simp
next
  case True
  from roundHalfEven_cases [of z] roundHalfEven_cases [of z'] assms show ?thesis
    unfolding True by (elim disjE conjE) simp_all
qed

lemma roundHalfEven_ge: "of_int n \<le> z \<Longrightarrow> n \<le> roundHalfEven z"
  using roundHalfEven_mono [of "of_int n" z] by simp

lemma roundHalfEven_le: "z \<le> of_int n \<Longrightarrow> roundHalfEven z \<le> n"
  using roundHalfEven_mono [of z "of_int n"] by simp

lemma powi_powr: "(2::real) powr of_int k = 2 powi k"
  by (rule powr_real_of_int') simp_all

lemma exponent_bounds:
  assumes "x \<noteq> 0"
  shows "2 powi exponent x \<le> \<bar>x\<bar>" and "\<bar>x\<bar> < 2 powi (exponent x + 1)"
proof -
  from assms have pos: "0 < \<bar>x\<bar>" by simp
  have "2 powr of_int (exponent x) \<le> \<bar>x\<bar> \<and> \<bar>x\<bar> < 2 powr (of_int (exponent x) + 1)"
    using floor_log_eq_powr_iff [OF pos, of 2 "exponent x"] by (simp add: exponent_def)
  moreover have "(2::real) powr (of_int (exponent x) + 1) = 2 powi (exponent x + 1)"
    using powi_powr [of "exponent x + 1"] by simp
  ultimately show "2 powi exponent x \<le> \<bar>x\<bar>" and "\<bar>x\<bar> < 2 powi (exponent x + 1)"
    by (simp_all add: powi_powr)
qed

lemma exponent_unique:
  assumes "2 powi e \<le> \<bar>x\<bar>" and "\<bar>x\<bar> < 2 powi (e + 1)"
  shows "exponent x = e"
proof -
  have "(0::real) < 2 powi e" by simp
  with assms(1) have pos: "0 < \<bar>x\<bar>" by linarith
  have "(2::real) powr (of_int e + 1) = 2 powi (e + 1)"
    using powi_powr [of "e + 1"] by simp
  with assms have "2 powr of_int e \<le> \<bar>x\<bar> \<and> \<bar>x\<bar> < 2 powr (of_int e + 1)"
    by (simp add: powi_powr)
  then show ?thesis
    using floor_log_eq_powr_iff [OF pos, of 2 e] by (simp add: exponent_def)
qed

lemma exponent_mono:
  assumes "x \<noteq> 0" and "\<bar>x\<bar> \<le> \<bar>y\<bar>"
  shows "exponent x \<le> exponent y"
proof -
  from assms have "0 < \<bar>x\<bar>" "0 < \<bar>y\<bar>" by simp_all
  with assms(2) have "log 2 \<bar>x\<bar> \<le> log 2 \<bar>y\<bar>" by simp
  then show ?thesis unfolding exponent_def by (rule floor_mono)
qed

lemma fl64_eval:
  assumes "2 powi e \<le> \<bar>x\<bar>" and "\<bar>x\<bar> < 2 powi (e + 1)"
  shows "fl64 x = of_int (roundHalfEven (x / 2 powi (e - 52))) * 2 powi (e - 52)"
proof -
  have "(0::real) < 2 powi e" by simp
  with assms(1) have "0 < \<bar>x\<bar>" by linarith
  then have "x \<noteq> 0" by simp
  then show ?thesis
    by (simp add: fl64_def Let_def exponent_unique [OF assms])
qed


lemma fl64_zero [simp]: "fl64 0 = 0"
  by (simp add: fl64_def)

lemma fl64_fixed:
  assumes "2 powi e \<le> \<bar>x\<bar>" and "\<bar>x\<bar> < 2 powi (e + 1)"
    and "x / 2 powi (e - 52) = of_int m"
  shows "fl64 x = x"
proof -
  have "fl64 x = of_int (roundHalfEven (x / 2 powi (e - 52))) * 2 powi (e - 52)"
    using assms(1,2) by (rule fl64_eval)
  also have "\<dots> = x / 2 powi (e - 52) * 2 powi (e - 52)"
    unfolding assms(3) by simp
  also have "\<dots> = x" by simp
  finally show ?thesis .
qed

lemma fl64_error:
  "\<bar>fl64 x - x\<bar> \<le> \<bar>x\<bar> / 2 ^ 53"
proof (cases "x = 0")
  case True
  then show ?thesis by simp
next
  case False
  define u :: real where "u = 2 powi (exponent x - 52)"
  have u: "0 < u" by (simp add: u_def)
  have fx: "fl64 x = of_int (roundHalfEven (x / u)) * u"
    using False by (simp add: fl64_def Let_def u_def)
  have "fl64 x - x = (of_int (roundHalfEven (x / u)) - x / u) * u"
    unfolding fx using u by (simp add: algebra_simps)
  then have "\<bar>fl64 x - x\<bar> = \<bar>of_int (roundHalfEven (x / u)) - x / u\<bar> * u"
    using u by (simp add: abs_mult)
  also have "\<dots> \<le> 1 / 2 * u"
    using roundHalfEven_near [of "x / u"] u by (intro mult_right_mono) simp_all
  also have "1 / 2 * u = 2 powi exponent x / 2 ^ 53"
    unfolding u_def by (simp add: power_int_diff)
  also have "\<dots> \<le> \<bar>x\<bar> / 2 ^ 53"
    using exponent_bounds(1) [OF False] by (simp add: divide_right_mono)
  finally show ?thesis .
qed

lemma fl64_nonneg: "0 \<le> x \<Longrightarrow> 0 \<le> fl64 x"
proof (cases "x = 0")
  case False
  assume "0 \<le> x"
  then have "of_int 0 \<le> x / 2 powi (exponent x - 52)" by simp
  then have "0 \<le> roundHalfEven (x / 2 powi (exponent x - 52))" by (rule roundHalfEven_ge)
  with False show ?thesis by (simp add: fl64_def Let_def)
qed simp

lemma fl64_nonpos: "x \<le> 0 \<Longrightarrow> fl64 x \<le> 0"
proof (cases "x = 0")
  case False
  assume "x \<le> 0"
  then have "x / 2 powi (exponent x - 52) \<le> of_int 0" by (simp add: divide_nonpos_pos)
  then have "roundHalfEven (x / 2 powi (exponent x - 52)) \<le> 0" by (rule roundHalfEven_le)
  with False show ?thesis by (simp add: fl64_def Let_def mult_nonpos_nonneg)
qed simp

lemma fl64_pos_range:
  assumes "0 < x"
  shows "2 powi exponent x \<le> fl64 x" and "fl64 x \<le> 2 powi (exponent x + 1)"
proof -
  define e where "e = exponent x"
  define u :: real where "u = 2 powi (e - 52)"
  have u: "0 < u" by (simp add: u_def)
  from assms have nz: "x \<noteq> 0" and ax: "\<bar>x\<bar> = x" by simp_all
  have fx: "fl64 x = of_int (roundHalfEven (x / u)) * u"
    using nz by (simp add: fl64_def Let_def u_def e_def)
  have lo: "(2::real) powi e = 2 ^ 52 * u" and hi: "(2::real) powi (e + 1) = 2 ^ 53 * u"
    unfolding u_def by (simp_all add: power_int_diff power_int_add)
  from exponent_bounds [OF nz] have b: "2 ^ 52 * u \<le> x" "x < 2 ^ 53 * u"
    unfolding ax e_def [symmetric] lo hi by simp_all
  from b(1) u have "of_int (2 ^ 52) \<le> x / u" by (simp add: pos_le_divide_eq)
  then have "2 ^ 52 \<le> roundHalfEven (x / u)" by (rule roundHalfEven_ge)
  then have "real_of_int (2 ^ 52) \<le> of_int (roundHalfEven (x / u))" by (simp only: of_int_le_iff)
  then have "(2 ^ 52 :: real) \<le> of_int (roundHalfEven (x / u))" by simp
  with u have "2 ^ 52 * u \<le> of_int (roundHalfEven (x / u)) * u" by (simp add: mult_right_mono)
  then show "2 powi exponent x \<le> fl64 x" unfolding fx e_def [symmetric] lo .
  from b(2) u have "x / u \<le> of_int (2 ^ 53)" by (simp add: pos_divide_le_eq)
  then have "roundHalfEven (x / u) \<le> 2 ^ 53" by (rule roundHalfEven_le)
  then have "of_int (roundHalfEven (x / u)) \<le> real_of_int (2 ^ 53)" by (simp only: of_int_le_iff)
  then have "of_int (roundHalfEven (x / u)) \<le> (2 ^ 53 :: real)" by simp
  with u have "of_int (roundHalfEven (x / u)) * u \<le> 2 ^ 53 * u" by (simp add: mult_right_mono)
  then show "fl64 x \<le> 2 powi (exponent x + 1)" unfolding fx e_def [symmetric] hi .
qed

lemma fl64_neg_range:
  assumes "x < 0"
  shows "- (2 powi (exponent x + 1)) \<le> fl64 x" and "fl64 x \<le> - (2 powi exponent x)"
proof -
  define e where "e = exponent x"
  define u :: real where "u = 2 powi (e - 52)"
  have u: "0 < u" by (simp add: u_def)
  from assms have nz: "x \<noteq> 0" and ax: "\<bar>x\<bar> = - x" by simp_all
  have fx: "fl64 x = of_int (roundHalfEven (x / u)) * u"
    using nz by (simp add: fl64_def Let_def u_def e_def)
  have lo: "(2::real) powi e = 2 ^ 52 * u" and hi: "(2::real) powi (e + 1) = 2 ^ 53 * u"
    unfolding u_def by (simp_all add: power_int_diff power_int_add)
  from exponent_bounds [OF nz] have b: "2 ^ 52 * u \<le> - x" "- x < 2 ^ 53 * u"
    unfolding ax e_def [symmetric] lo hi by simp_all
  from b(1) u have "x / u \<le> of_int (- (2 ^ 52))" by (simp add: pos_divide_le_eq)
  then have "roundHalfEven (x / u) \<le> - (2 ^ 52)" by (rule roundHalfEven_le)
  then have "of_int (roundHalfEven (x / u)) \<le> real_of_int (- (2 ^ 52))" by (simp only: of_int_le_iff)
  then have "of_int (roundHalfEven (x / u)) \<le> - (2 ^ 52 :: real)" by simp
  with u have "of_int (roundHalfEven (x / u)) * u \<le> - (2 ^ 52) * u"
    by (intro mult_right_mono) simp_all
  then show "fl64 x \<le> - (2 powi exponent x)" unfolding fx e_def [symmetric] lo by simp
  from b(2) u have "of_int (- (2 ^ 53)) \<le> x / u" by (simp add: pos_le_divide_eq)
  then have "- (2 ^ 53) \<le> roundHalfEven (x / u)" by (rule roundHalfEven_ge)
  then have "real_of_int (- (2 ^ 53)) \<le> of_int (roundHalfEven (x / u))" by (simp only: of_int_le_iff)
  then have "- (2 ^ 53 :: real) \<le> of_int (roundHalfEven (x / u))" by simp
  with u have "- (2 ^ 53) * u \<le> of_int (roundHalfEven (x / u)) * u"
    by (intro mult_right_mono) simp_all
  then show "- (2 powi (exponent x + 1)) \<le> fl64 x" unfolding fx e_def [symmetric] hi by simp
qed

lemma fl64_same_exponent:
  assumes "x \<noteq> 0" "y \<noteq> 0" "exponent x = exponent y" "x \<le> y"
  shows "fl64 x \<le> fl64 y"
proof -
  define u :: real where "u = 2 powi (exponent y - 52)"
  have u: "0 < u" by (simp add: u_def)
  from assms(4) u have "x / u \<le> y / u" by (simp add: divide_right_mono)
  then have "roundHalfEven (x / u) \<le> roundHalfEven (y / u)" by (rule roundHalfEven_mono)
  then have "(of_int (roundHalfEven (x / u)) :: real) \<le> of_int (roundHalfEven (y / u))" by simp
  with u have "of_int (roundHalfEven (x / u)) * u \<le> of_int (roundHalfEven (y / u)) * u"
    by (simp add: mult_right_mono)
  with assms(1,2,3) show ?thesis by (simp add: fl64_def Let_def u_def)
qed

lemma fl64_mono:
  assumes "x \<le> y"
  shows "fl64 x \<le> fl64 y"
proof -
  consider "x \<le> 0" "0 \<le> y" | "0 < x" | "y < 0" by linarith
  then show ?thesis
  proof cases
    case 1
    then have "fl64 x \<le> 0" "0 \<le> fl64 y" by (simp_all add: fl64_nonpos fl64_nonneg)
    then show ?thesis by simp
  next
    case 2
    with assms have y: "0 < y" by simp
    from 2 y assms have "exponent x \<le> exponent y" by (intro exponent_mono) simp_all
    then consider "exponent x = exponent y" | "exponent x + 1 \<le> exponent y" by linarith
    then show ?thesis
    proof cases
      case 1
      with 2 y assms show ?thesis by (intro fl64_same_exponent) simp_all
    next
      case 2
      then have "(2::real) powi (exponent x + 1) \<le> 2 powi exponent y"
        by (intro power_int_increasing) simp_all
      with fl64_pos_range(2) [OF \<open>0 < x\<close>] fl64_pos_range(1) [OF y] show ?thesis by linarith
    qed
  next
    case 3
    with assms have x: "x < 0" by simp
    from 3 x assms have "exponent y \<le> exponent x" by (intro exponent_mono) simp_all
    then consider "exponent x = exponent y" | "exponent y + 1 \<le> exponent x" by linarith
    then show ?thesis
    proof cases
      case 1
      with 3 x assms show ?thesis by (intro fl64_same_exponent) simp_all
    next
      case 2
      then have "(2::real) powi (exponent y + 1) \<le> 2 powi exponent x"
        by (intro power_int_increasing) simp_all
      with fl64_neg_range(2) [OF x] fl64_neg_range(1) [OF \<open>y < 0\<close>] show ?thesis by linarith
    qed
  qed
qed

section \<open>The luminance loop\<close>


lemma grayscale_row_length [simp]: "length (grayscale_row px w y x gs) = length gs"
  by (induction px w y x gs rule: grayscale_row.induct) (subst grayscale_row.simps, simp)

lemma grayscale_rows_length [simp]: "length (grayscale_rows px w h y gs) = length gs"
  by (induction px w h y gs rule: grayscale_rows.induct) (subst grayscale_rows.simps, simp)

lemma grayscale_row_nth:
  "k < length gs \<Longrightarrow>
   grayscale_row px w y x gs ! k =
     (if y * w + x \<le> k \<and> k < y * w + w then grayValue px (k * 4) else gs ! k)"
proof (induction px w y x gs rule: grayscale_row.induct)
  case (1 px w y x gs)
  show ?case
  proof (cases "x < w")
    case True
    then have step: "grayscale_row px w y x gs =
        grayscale_row px w y (x + 1) (gs[y * w + x := grayValue px ((y * w + x) * 4)])"
      by (subst grayscale_row.simps) simp
    have "k = y * w + x \<or> k < y * w + x \<or> y * w + (x + 1) \<le> k" by arith
    then show ?thesis
      using 1 True unfolding step by (auto simp: nth_list_update)
  next
    case False
    then have stop: "grayscale_row px w y x gs = gs"
      by (subst grayscale_row.simps) simp
    from False have "\<not> (y * w + x \<le> k \<and> k < y * w + w)" by linarith
    then show ?thesis unfolding stop by auto
  qed
qed

lemma next_row: "(y::nat) < h \<Longrightarrow> y * w + w \<le> h * w"
proof -
  assume "y < h"
  then have "Suc y * w \<le> h * w" by (intro mult_le_mono1) simp
  then show ?thesis by simp
qed

lemma grayscale_rows_nth:
  "k < length gs \<Longrightarrow>
   grayscale_rows px w h y gs ! k =
     (if y * w \<le> k \<and> k < h * w then grayValue px (k * 4) else gs ! k)"
proof (induction px w h y gs rule: grayscale_rows.induct)
  case (1 px w h y gs)
  show ?case
  proof (cases "y < h")
    case True
    from True have le: "y * w + w \<le> h * w" by (rule next_row)
    from 1 True have "grayscale_rows px w h y gs ! k =
        (if (y + 1) * w \<le> k \<and> k < h * w then grayValue px (k * 4)
         else grayscale_row px w y 0 gs ! k)"
      by (subst grayscale_rows.simps) simp
    with 1(2) le show ?thesis
      by (auto simp: grayscale_row_nth)
  next
    case False
    then have le: "h * w \<le> y * w" by (intro mult_le_mono1) simp
    from False have stop: "grayscale_rows px w h y gs = gs"
      by (subst grayscale_rows.simps) simp
    from le have "\<not> (y * w \<le> k \<and> k < h * w)" by linarith
    then show ?thesis unfolding stop by auto
  qed
qed

lemma computeGrayscale_length [simp]: "length (computeGrayscale px w h) = w * h"
  by (simp add: computeGrayscale_def)

lemma computeGrayscale_nth:
  "k < w * h \<Longrightarrow> computeGrayscale px w h ! k = grayValue px (k * 4)"
  by (simp add: computeGrayscale_def grayscale_rows_nth mult.commute)

section \<open>The outline loop\<close>


lemma quad_update_nth:
  fixes p q j :: nat
  assumes "j < 4" and "p * 4 + j < length out"
  shows "out[q * 4 := a0, q * 4 + 1 := a1, q * 4 + 2 := a2, q * 4 + 3 := a3] ! (p * 4 + j) =
     (if p = q then (if j = 0 then a0 else if j = 1 then a1 else if j = 2 then a2 else a3)
      else out ! (p * 4 + j))"
proof (cases "p = q")
  case True
  from assms(1) have "j = 0 \<or> j = 1 \<or> j = 2 \<or> j = 3" by arith
  then show ?thesis
    using True assms(2) by (elim disjE) (simp_all add: nth_list_update)
next
  case False
  then have "q * 4 \<noteq> p * 4 + j" "q * 4 + 1 \<noteq> p * 4 + j" "q * 4 + 2 \<noteq> p * 4 + j"
    "q * 4 + 3 \<noteq> p * 4 + j"
    using assms(1) by arith+
  with False show ?thesis by (simp add: nth_list_update)
qed

lemma outline_pixel_nth:
  assumes "j < 4" and "p * 4 + j < length out"
  shows "outline_pixel gs w c t i y x out ! (p * 4 + j) =
     (if p = y * w + x \<and> fl64 (edgeResponse gs w y x) > t
      then outlineByte c t i (fl64 (edgeResponse gs w y x)) j
      else out ! (p * 4 + j))"
proof (cases "fl64 (edgeResponse gs w y x) > t")
  case False
  then show ?thesis by (simp add: outline_pixel_def)
next
  case True
  then have "outline_pixel gs w c t i y x out =
     out[(y * w + x) * 4 := storeComponent (r c),
         (y * w + x) * 4 + 1 := storeComponent (g c),
         (y * w + x) * 4 + 2 := storeComponent (b c),
         (y * w + x) * 4 + 3 :=
            ToUint8Clamp (min 255 (fmul (min 255 (fmul (fsub (fl64 (edgeResponse gs w y x)) t) 2)) i))]"
    by (simp add: outline_pixel_def Let_def)
  then show ?thesis
    using True quad_update_nth [OF assms, of "y * w + x"]
    by (simp only: outlineByte_def if_True simp_thms)
qed

lemma outline_pixel_length [simp]: "length (outline_pixel gs w c t i y x out) = length out"
  by (simp add: outline_pixel_def Let_def)

lemma outline_row_length [simp]: "length (outline_row gs w c t i y x out) = length out"
  by (induction gs w c t i y x out rule: outline_row.induct) (subst outline_row.simps, simp)

lemma outline_rows_length [simp]: "length (outline_rows gs w h c t i y out) = length out"
  by (induction gs w h c t i y out rule: outline_rows.induct) (subst outline_rows.simps, simp)

lemma outline_row_nth:
  "j < 4 \<Longrightarrow> p * 4 + j < length out \<Longrightarrow>
   outline_row gs w c t i y x out ! (p * 4 + j) =
     (if (y * w + x \<le> p \<and> p < y * w + (w - 1)) \<and> fl64 (edgeResponse gs w y (p - y * w)) > t
      then outlineByte c t i (fl64 (edgeResponse gs w y (p - y * w))) j
      else out ! (p * 4 + j))"
proof (induction gs w c t i y x out rule: outline_row.induct)
  case (1 gs w c t i y x out)
  show ?case
  proof (cases "x < w - 1")
    case True
    then have step: "outline_row gs w c t i y x out =
        outline_row gs w c t i y (x + 1) (outline_pixel gs w c t i y x out)"
      by (subst outline_row.simps) simp
    have later: "outline_row gs w c t i y (x + 1) (outline_pixel gs w c t i y x out) ! (p * 4 + j) =
       (if (y * w + (x + 1) \<le> p \<and> p < y * w + (w - 1)) \<and> fl64 (edgeResponse gs w y (p - y * w)) > t
        then outlineByte c t i (fl64 (edgeResponse gs w y (p - y * w))) j
        else outline_pixel gs w c t i y x out ! (p * 4 + j))"
      using 1 True by simp
    have now: "outline_pixel gs w c t i y x out ! (p * 4 + j) =
       (if p = y * w + x \<and> fl64 (edgeResponse gs w y x) > t
        then outlineByte c t i (fl64 (edgeResponse gs w y x)) j
        else out ! (p * 4 + j))"
      using 1(2,3) by (rule outline_pixel_nth)
    consider "p = y * w + x" | "p < y * w + x" | "y * w + (x + 1) \<le> p" by arith
    then show ?thesis
    proof cases
      case 1
      with True show ?thesis unfolding step later now by simp
    next
      case 2
      then show ?thesis unfolding step later now by simp
    next
      case 3
      then show ?thesis unfolding step later now by simp
    qed
  next
    case False
    then have stop: "outline_row gs w c t i y x out = out"
      by (subst outline_row.simps) simp
    from False have "\<not> (y * w + x \<le> p \<and> p < y * w + (w - 1))" by linarith
    then show ?thesis unfolding stop by auto
  qed
qed

lemma row_index:
  fixes x y y0 w :: nat
  assumes "x < w"
  shows "(y0 * w + 1 \<le> y * w + x \<and> y * w + x < y0 * w + (w - 1)) = (y = y0 \<and> 1 \<le> x \<and> x < w - 1)"
proof (cases "y = y0")
  case True
  then show ?thesis by auto
next
  case False
  then consider "y < y0" | "y0 < y" by arith
  then have "\<not> (y0 * w + 1 \<le> y * w + x \<and> y * w + x < y0 * w + (w - 1))"
  proof cases
    case 1
    then have "y * w + w \<le> y0 * w" by (rule next_row)
    with assms show ?thesis by linarith
  next
    case 2
    then have "y0 * w + w \<le> y * w" by (rule next_row)
    with assms show ?thesis by linarith
  qed
  with False show ?thesis by simp
qed

lemma outline_rows_nth:
  "x < w \<Longrightarrow> j < 4 \<Longrightarrow> (y * w + x) * 4 + j < length out \<Longrightarrow>
   outline_rows gs w h c t i y0 out ! ((y * w + x) * 4 + j) =
     (if y0 \<le> y \<and> y < h - 1 \<and> 1 \<le> x \<and> x < w - 1 \<and> fl64 (edgeResponse gs w y x) > t
      then outlineByte c t i (fl64 (edgeResponse gs w y x)) j
      else out ! ((y * w + x) * 4 + j))"
proof (induction gs w h c t i y0 out rule: outline_rows.induct)
  case (1 gs w h c t i y0 out)
  show ?case
  proof (cases "y0 < h - 1")
    case True
    then have step: "outline_rows gs w h c t i y0 out =
        outline_rows gs w h c t i (y0 + 1) (outline_row gs w c t i y0 1 out)"
      by (subst outline_rows.simps) simp
    have raw: "outline_row gs w c t i y0 1 out ! ((y * w + x) * 4 + j) =
       (if (y0 * w + 1 \<le> y * w + x \<and> y * w + x < y0 * w + (w - 1))
            \<and> fl64 (edgeResponse gs w y0 (y * w + x - y0 * w)) > t
        then outlineByte c t i (fl64 (edgeResponse gs w y0 (y * w + x - y0 * w))) j
        else out ! ((y * w + x) * 4 + j))"
      using 1(3,4) by (rule outline_row_nth)
    have ri: "(y0 * w + 1 \<le> y * w + x \<and> y * w + x < y0 * w + (w - 1)) =
              (y = y0 \<and> 1 \<le> x \<and> x < w - 1)"
      using 1(2) by (rule row_index)
    have row: "outline_row gs w c t i y0 1 out ! ((y * w + x) * 4 + j) =
       (if y = y0 \<and> 1 \<le> x \<and> x < w - 1 \<and> fl64 (edgeResponse gs w y x) > t
        then outlineByte c t i (fl64 (edgeResponse gs w y x)) j
        else out ! ((y * w + x) * 4 + j))"
    proof (cases "y = y0")
      case True
      then have "y * w + x - y0 * w = x" by simp
      with True show ?thesis unfolding raw ri by simp
    next
      case False
      then show ?thesis unfolding raw ri by simp
    qed
    have later: "outline_rows gs w h c t i (y0 + 1) (outline_row gs w c t i y0 1 out)
          ! ((y * w + x) * 4 + j) =
       (if y0 + 1 \<le> y \<and> y < h - 1 \<and> 1 \<le> x \<and> x < w - 1 \<and> fl64 (edgeResponse gs w y x) > t
        then outlineByte c t i (fl64 (edgeResponse gs w y x)) j
        else outline_row gs w c t i y0 1 out ! ((y * w + x) * 4 + j))"
      using 1 True by simp
    consider "y = y0" | "y < y0" | "y0 + 1 \<le> y" by arith
    then show ?thesis
    proof cases
      case 1
      with True show ?thesis unfolding step later row by simp
    next
      case 2
      then show ?thesis unfolding step later row by simp
    next
      case 3
      then show ?thesis unfolding step later row by simp
    qed
  next
    case False
    then have stop: "outline_rows gs w h c t i y0 out = out"
      by (subst outline_rows.simps) simp
    from False have "\<not> (y0 \<le> y \<and> y < h - 1)" by linarith
    then show ?thesis unfolding stop by auto
  qed
qed

section \<open>The clamped store\<close>


lemma uint_byte: "0 \<le> k \<Longrightarrow> k \<le> 255 \<Longrightarrow> uint (word_of_int k :: byte) = k"
  by (simp add: uint_word_of_int_eq take_bit_int_eq_self)

lemma ToUint8Clamp_cases:
  fixes v :: real
  defines "c \<equiv> min (max v 0) 255"
  shows "(c < of_int \<lfloor>c\<rfloor> + 1 / 2 \<and> uint (ToUint8Clamp v) = \<lfloor>c\<rfloor>) \<or>
         (of_int \<lfloor>c\<rfloor> + 1 / 2 < c \<and> uint (ToUint8Clamp v) = \<lfloor>c\<rfloor> + 1) \<or>
         (c = of_int \<lfloor>c\<rfloor> + 1 / 2 \<and> even \<lfloor>c\<rfloor> \<and> uint (ToUint8Clamp v) = \<lfloor>c\<rfloor>) \<or>
         (c = of_int \<lfloor>c\<rfloor> + 1 / 2 \<and> odd \<lfloor>c\<rfloor> \<and> uint (ToUint8Clamp v) = \<lfloor>c\<rfloor> + 1)"
proof -
  have c0: "0 \<le> c" and c255: "c \<le> 255" by (simp_all add: c_def)
  then have f0: "0 \<le> \<lfloor>c\<rfloor>" and f255: "\<lfloor>c\<rfloor> \<le> 255" by (simp_all add: floor_le_iff le_floor_iff)
  have up: "of_int \<lfloor>c\<rfloor> + 1 / 2 \<le> c \<Longrightarrow> \<lfloor>c\<rfloor> + 1 \<le> 255"
  proof -
    assume "of_int \<lfloor>c\<rfloor> + 1 / 2 \<le> c"
    with c255 have "real_of_int \<lfloor>c\<rfloor> < 255" by linarith
    then have "\<lfloor>c\<rfloor> < 255" by linarith
    then show ?thesis by simp
  qed
  have lo: "uint (word_of_int \<lfloor>c\<rfloor> :: byte) = \<lfloor>c\<rfloor>"
    using f0 f255 by (rule uint_byte)
  have hi: "of_int \<lfloor>c\<rfloor> + 1 / 2 \<le> c \<Longrightarrow> uint (word_of_int (\<lfloor>c\<rfloor> + 1) :: byte) = \<lfloor>c\<rfloor> + 1"
    using f0 up by (intro uint_byte) simp_all
  consider "c < of_int \<lfloor>c\<rfloor> + 1 / 2" | "of_int \<lfloor>c\<rfloor> + 1 / 2 < c" | "c = of_int \<lfloor>c\<rfloor> + 1 / 2"
    by linarith
  then show ?thesis
  proof cases
    case 1
    then have "ToUint8Clamp v = word_of_int \<lfloor>c\<rfloor>"
      unfolding ToUint8Clamp_def Let_def c_def [symmetric] by simp
    with 1 lo show ?thesis by (simp only: simp_thms)
  next
    case 2
    then have "ToUint8Clamp v = word_of_int (\<lfloor>c\<rfloor> + 1)"
      unfolding ToUint8Clamp_def Let_def c_def [symmetric] by (simp del: of_int_add)
    moreover from 2 have "uint (word_of_int (\<lfloor>c\<rfloor> + 1) :: byte) = \<lfloor>c\<rfloor> + 1"
      by (intro hi) simp
    ultimately show ?thesis using 2 by (simp only: simp_thms)
  next
    case 3
    then have h: "uint (word_of_int (\<lfloor>c\<rfloor> + 1) :: byte) = \<lfloor>c\<rfloor> + 1"
      by (intro hi) simp
    from 3 have eq: "ToUint8Clamp v = (if even \<lfloor>c\<rfloor> then word_of_int \<lfloor>c\<rfloor> else word_of_int (\<lfloor>c\<rfloor> + 1))"
      unfolding ToUint8Clamp_def Let_def c_def [symmetric] by (simp del: of_int_add)
    show ?thesis
    proof (cases "even \<lfloor>c\<rfloor>")
      case True
      with eq have "ToUint8Clamp v = word_of_int \<lfloor>c\<rfloor>" by (simp only: if_True)
      with True 3 lo show ?thesis by (simp only: simp_thms)
    next
      case False
      with eq have "ToUint8Clamp v = word_of_int (\<lfloor>c\<rfloor> + 1)" by (simp only: if_False)
      with False 3 h show ?thesis by (simp only: simp_thms)
    qed
  qed
qed

lemma ToUint8Clamp_nearest:
  fixes v :: real
  defines "c \<equiv> min (max v 0) 255"
  shows "\<bar>of_int (uint (ToUint8Clamp v)) - c\<bar> \<le> 1 / 2 \<and>
         (\<bar>of_int (uint (ToUint8Clamp v)) - c\<bar> = 1 / 2 \<longrightarrow> even (uint (ToUint8Clamp v)))"
proof -
  define u where "u = uint (ToUint8Clamp v)"
  define f where "f = \<lfloor>c\<rfloor>"
  have fl: "of_int f \<le> c" "c < of_int f + 1" unfolding f_def by linarith+
  have alt: "(c < of_int f + 1 / 2 \<and> u = f) \<or> (of_int f + 1 / 2 < c \<and> u = f + 1) \<or>
         (c = of_int f + 1 / 2 \<and> even f \<and> u = f) \<or> (c = of_int f + 1 / 2 \<and> odd f \<and> u = f + 1)"
    using ToUint8Clamp_cases [of v] unfolding c_def [symmetric] u_def f_def .
  have "\<bar>of_int u - c\<bar> \<le> 1 / 2 \<and> (\<bar>of_int u - c\<bar> = 1 / 2 \<longrightarrow> even u)"
    using alt
  proof (elim disjE conjE)
    assume "c < of_int f + 1 / 2" "u = f"
    with fl have "\<bar>of_int u - c\<bar> < 1 / 2" by simp
    then show ?thesis by simp
  next
    assume "of_int f + 1 / 2 < c" "u = f + 1"
    with fl have "\<bar>of_int u - c\<bar> < 1 / 2" by simp
    then show ?thesis by simp
  next
    assume "c = of_int f + 1 / 2" "even f" "u = f"
    then show ?thesis by simp
  next
    assume "c = of_int f + 1 / 2" "odd f" "u = f + 1"
    then show ?thesis by simp
  qed
  then show ?thesis unfolding u_def .
qed

lemma ToUint8Clamp_zero_iff: "(ToUint8Clamp v = 0) = (v \<le> 1 / 2)"
proof -
  define c where "c = min (max v 0) 255"
  define u where "u = uint (ToUint8Clamp v)"
  define f where "f = \<lfloor>c\<rfloor>"
  have c0: "0 \<le> c" by (simp add: c_def)
  have fl: "of_int f \<le> c" "c < of_int f + 1" unfolding f_def by linarith+
  have f0: "0 \<le> f" using c0 by (simp add: f_def)
  have vc: "(v \<le> 1 / 2) = (c \<le> 1 / 2)" by (auto simp: c_def)
  have z: "(ToUint8Clamp v = 0) = (u = 0)" by (simp add: uint_0_iff u_def)
  have alt: "(c < of_int f + 1 / 2 \<and> u = f) \<or> (of_int f + 1 / 2 < c \<and> u = f + 1) \<or>
         (c = of_int f + 1 / 2 \<and> even f \<and> u = f) \<or> (c = of_int f + 1 / 2 \<and> odd f \<and> u = f + 1)"
    using ToUint8Clamp_cases [of v] unfolding c_def [symmetric] u_def f_def .
  have "(u = 0) = (c \<le> 1 / 2)"
  proof (cases "f = 0")
    case True
    with alt show ?thesis by auto
  next
    case False
    with f0 have "1 \<le> f" by simp
    then have "1 \<le> real_of_int f" by simp
    with fl have "\<not> c \<le> 1 / 2" by linarith
    moreover from alt f0 False have "u \<noteq> 0" by auto
    ultimately show ?thesis by simp
  qed
  with vc z show ?thesis by simp
qed

lemma ToUint8Clamp_byte: "k \<le> 255 \<Longrightarrow> ToUint8Clamp (real k) = of_nat k"
  by (simp add: ToUint8Clamp_def Let_def)

section \<open>The canvas after \<open>processFrame\<close>\<close>


lemma pixel_in_range:
  fixes x y w h j :: nat
  assumes "x < w" "y < h" "j < 4"
  shows "(y * w + x) * 4 + j < 4 * w * h"
proof -
  from assms(2) have "y * w + w \<le> h * w" by (rule next_row)
  with assms(1) have "y * w + x < w * h" by (simp add: mult.commute)
  with assms(3) show ?thesis by simp
qed

lemma processFrame_enabled:
  assumes "context2d cv" "offscreenContext2d doc" "0 < videoWidth v" "0 < videoHeight v"
  shows "processFrame doc v cv color t True i mode =
     Inr (cv\<lparr>width := videoWidth v, height := videoHeight v,
            bitmap := outline_rows (computeGrayscale (frame v) (videoWidth v) (videoHeight v))
                        (videoWidth v) (videoHeight v) (hexToRgb color) t i 1
                        (replicate (4 * videoWidth v * videoHeight v) 0)\<rparr>)"
  using assms
  by (simp add: processFrame_def Let_def resize_def clearRect_def getImageData_def
      newImageData_def putImageData_def)

lemma processFrame_channel:
  assumes "context2d cv" "offscreenContext2d doc" "x < videoWidth v" "y < videoHeight v" "j < 4"
  shows "\<exists>cv'. processFrame doc v cv color t True i mode = Inr cv' \<and>
           width cv' = videoWidth v \<and> height cv' = videoHeight v \<and>
           length (bitmap cv') = 4 * videoWidth v * videoHeight v \<and>
           bitmap cv' ! ((y * videoWidth v + x) * 4 + j) =
             (if 1 \<le> y \<and> y < videoHeight v - 1 \<and> 1 \<le> x \<and> x < videoWidth v - 1
                 \<and> fl64 (edgeResponse (computeGrayscale (frame v) (videoWidth v) (videoHeight v))
                      (videoWidth v) y x) > t
              then outlineByte (hexToRgb color) t i
                     (fl64 (edgeResponse (computeGrayscale (frame v) (videoWidth v) (videoHeight v))
                        (videoWidth v) y x)) j
              else 0)"
proof -
  from assms(3,4) have pos: "0 < videoWidth v" "0 < videoHeight v" by simp_all
  have rng: "(y * videoWidth v + x) * 4 + j < 4 * videoWidth v * videoHeight v"
    using assms(3,4,5) by (rule pixel_in_range)
  let ?gs = "computeGrayscale (frame v) (videoWidth v) (videoHeight v)"
  let ?zero = "replicate (4 * videoWidth v * videoHeight v) (0::byte)"
  let ?out = "outline_rows ?gs (videoWidth v) (videoHeight v) (hexToRgb color) t i 1 ?zero"
  let ?cv' = "cv\<lparr>width := videoWidth v, height := videoHeight v, bitmap := ?out\<rparr>"
  have px: "?out ! ((y * videoWidth v + x) * 4 + j) =
      (if 1 \<le> y \<and> y < videoHeight v - 1 \<and> 1 \<le> x \<and> x < videoWidth v - 1
          \<and> fl64 (edgeResponse ?gs (videoWidth v) y x) > t
       then outlineByte (hexToRgb color) t i (fl64 (edgeResponse ?gs (videoWidth v) y x)) j
       else ?zero ! ((y * videoWidth v + x) * 4 + j))"
    using assms(3,5) rng by (intro outline_rows_nth) simp_all
  have z: "?zero ! ((y * videoWidth v + x) * 4 + j) = 0"
    using rng by (rule nth_replicate)
  have run: "processFrame doc v cv color t True i mode = Inr ?cv'"
    using assms(1,2) pos by (rule processFrame_enabled)
  have bm: "bitmap ?cv' = ?out" by simp
  have "bitmap ?cv' ! ((y * videoWidth v + x) * 4 + j) =
      (if 1 \<le> y \<and> y < videoHeight v - 1 \<and> 1 \<le> x \<and> x < videoWidth v - 1
          \<and> fl64 (edgeResponse ?gs (videoWidth v) y x) > t
       then outlineByte (hexToRgb color) t i (fl64 (edgeResponse ?gs (videoWidth v) y x)) j
       else 0)"
    unfolding bm px z ..
  moreover have "width ?cv' = videoWidth v" "height ?cv' = videoHeight v"
    "length (bitmap ?cv') = 4 * videoWidth v * videoHeight v" by simp_all
  ultimately show ?thesis using run by blast
qed

section \<open>The luminance as a double\<close>

lemma fl64_small:
  assumes "\<bar>x\<bar> \<le> 256"
  shows "fl64 x - x \<le> 1 / 1000000000000" and "x - fl64 x \<le> 1 / 1000000000000"
proof -
  have "\<bar>fl64 x - x\<bar> \<le> \<bar>x\<bar> / 2 ^ 53" by (rule fl64_error)
  also from assms have "\<dots> \<le> 256 / 2 ^ 53" by (simp add: divide_right_mono)
  also have "\<dots> \<le> (1::real) / 1000000000000" by simp
  finally have "\<bar>fl64 x - x\<bar> \<le> 1 / 1000000000000" .
  then show "fl64 x - x \<le> 1 / 1000000000000" and "x - fl64 x \<le> 1 / 1000000000000"
    by linarith+
qed

lemma weighted_term:
  fixes v c :: real
  assumes "0 \<le> v" "v \<le> 255" "0 \<le> c" "c \<le> 1"
  shows "fmul v (fl64 c) - c * v \<le> 256 / 1000000000000"
    and "c * v - fmul v (fl64 c) \<le> 256 / 1000000000000"
proof -
  from assms(3,4) have "\<bar>c\<bar> \<le> 256" by simp
  note e = fl64_small [OF this]
  have up: "v * (fl64 c - c) \<le> 255 * (1 / 1000000000000)"
  proof (cases "0 \<le> fl64 c - c")
    case True
    with assms(1,2) e(1) show ?thesis by (intro mult_mono) simp_all
  next
    case False
    then have "v * (fl64 c - c) \<le> 0" using assms(1) by (simp add: mult_nonneg_nonpos)
    then show ?thesis by simp
  qed
  have dn: "v * (c - fl64 c) \<le> 255 * (1 / 1000000000000)"
  proof (cases "0 \<le> c - fl64 c")
    case True
    with assms(1,2) e(2) show ?thesis by (intro mult_mono) simp_all
  next
    case False
    then have "v * (c - fl64 c) \<le> 0" using assms(1) by (simp add: mult_nonneg_nonpos)
    then show ?thesis by simp
  qed
  have eq: "v * (fl64 c - c) = v * fl64 c - c * v" "v * (c - fl64 c) = c * v - v * fl64 c"
    by (simp_all add: algebra_simps)
  have cv: "c * v \<le> 255" "0 \<le> c * v"
    using mult_mono [of c 1 v 255] assms by simp_all
  from up dn cv have "\<bar>v * fl64 c\<bar> \<le> 256" unfolding eq by linarith
  note f = fl64_small [OF this]
  from f up dn show "fmul v (fl64 c) - c * v \<le> 256 / 1000000000000"
    and "c * v - fmul v (fl64 c) \<le> 256 / 1000000000000"
    unfolding eq fmul_def by linarith+
qed

lemma weighted_sum_error:
  fixes rr gg bb :: real
  assumes "0 \<le> rr" "rr \<le> 255" "0 \<le> gg" "gg \<le> 255" "0 \<le> bb" "bb \<le> 255"
  shows "\<bar>fadd (fadd (fmul rr (fl64 0.299)) (fmul gg (fl64 0.587))) (fmul bb (fl64 0.114))
          - (0.299 * rr + 0.587 * gg + 0.114 * bb)\<bar> \<le> 1 / 1000000000"
proof -
  define p1 where "p1 = fmul rr (fl64 (299 / 1000))"
  define p2 where "p2 = fmul gg (fl64 (587 / 1000))"
  define p3 where "p3 = fmul bb (fl64 (114 / 1000))"
  have e1: "p1 - 299 / 1000 * rr \<le> 256 / 1000000000000" "299 / 1000 * rr - p1 \<le> 256 / 1000000000000"
    unfolding p1_def using assms(1,2) by (intro weighted_term; simp)+
  have e2: "p2 - 587 / 1000 * gg \<le> 256 / 1000000000000" "587 / 1000 * gg - p2 \<le> 256 / 1000000000000"
    unfolding p2_def using assms(3,4) by (intro weighted_term; simp)+
  have e3: "p3 - 114 / 1000 * bb \<le> 256 / 1000000000000" "114 / 1000 * bb - p3 \<le> 256 / 1000000000000"
    unfolding p3_def using assms(5,6) by (intro weighted_term; simp)+
  have "\<bar>p1 + p2\<bar> \<le> 256" using e1 e2 assms by linarith
  note a1 = fl64_small [OF this]
  have "\<bar>fl64 (p1 + p2) + p3\<bar> \<le> 256" using a1 e1 e2 e3 assms by linarith
  note a2 = fl64_small [OF this]
  have "\<bar>fl64 (fl64 (p1 + p2) + p3) - (299 / 1000 * rr + 587 / 1000 * gg + 114 / 1000 * bb)\<bar>
      \<le> 1 / 1000000000"
    using e1 e2 e3 a1 a2 by linarith
  then show ?thesis
    unfolding fadd_def p1_def p2_def p3_def by simp
qed

lemma round_near_thousandth:
  fixes d :: real and k :: int
  assumes "\<bar>d - of_int k / 1000\<bar> \<le> 1 / 1000000000"
  shows "\<bar>of_int (round d) - of_int k / 1000\<bar> \<le> (1 / 2 :: real)"
    and "k mod 1000 \<noteq> 500 \<Longrightarrow> round d = round (of_int k / 1000 :: real)"
proof -
  define l where "l = round d"
  define t where "t = 1000 * l - k"
  have near: "\<bar>of_int l - d\<bar> \<le> 1 / 2" unfolding l_def by (rule of_int_round_abs_le)
  have tr: "of_int l - of_int k / 1000 = real_of_int t / 1000"
    unfolding t_def by simp
  from assms near have "\<bar>real_of_int t / 1000\<bar> \<le> 1 / 2 + 1 / 1000000000"
    unfolding tr [symmetric] by linarith
  then have "real_of_int t < 501"
    by linarith
  then have u: "t < 501" by linarith
  from \<open>\<bar>real_of_int t / 1000\<bar> \<le> 1 / 2 + 1 / 1000000000\<close> have "- 501 < real_of_int t"
    by linarith
  then have lo: "- 501 < t" by linarith
  from u lo have t500: "\<bar>t\<bar> \<le> 500" by linarith
  then have "\<bar>real_of_int t\<bar> \<le> 500" by linarith
  then have "\<bar>real_of_int t / 1000\<bar> \<le> 1 / 2" by linarith
  then show "\<bar>of_int (round d) - of_int k / 1000\<bar> \<le> (1 / 2 :: real)"
    unfolding l_def [symmetric] tr .
  assume nt: "k mod 1000 \<noteq> 500"
  have "\<bar>t\<bar> \<noteq> 500"
  proof
    assume "\<bar>t\<bar> = 500"
    then have "t = 500 \<or> t = - 500" by linarith
    then have "k = 500 + 1000 * (l - 1) \<or> k = 500 + 1000 * l" unfolding t_def by auto
    then show False
    proof
      assume "k = 500 + 1000 * (l - 1)"
      then have "k mod 1000 = 500" by (simp only: mod_mult_self2) simp
      with nt show False by simp
    next
      assume "k = 500 + 1000 * l"
      then have "k mod 1000 = 500" by (simp only: mod_mult_self2) simp
      with nt show False by simp
    qed
  qed
  with t500 have "\<bar>t\<bar> \<le> 499" by linarith
  then have "\<bar>real_of_int t\<bar> \<le> 499" by linarith
  then have "\<bar>real_of_int t / 1000\<bar> < 1 / 2" by linarith
  then have "\<bar>of_int k / 1000 - real_of_int l\<bar> < 1 / 2"
    unfolding tr [symmetric] by linarith
  then have "round (of_int k / 1000 :: real) = l" by (rule round_unique')
  then show "round d = round (of_int k / 1000 :: real)" unfolding l_def by simp
qed

section \<open>Values that a double holds exactly, and the doubles of the example\<close>

lemma fl64_representable:
  assumes "\<bar>n\<bar> < 2 ^ 53"
  shows "fl64 (of_int n * 2 powi j) = of_int n * 2 powi j"
proof (cases "n = 0")
  case True
  then show ?thesis by simp
next
  case False
  define x :: real where "x = of_int n * 2 powi j"
  define e where "e = exponent x"
  from False have nz: "x \<noteq> 0" by (simp add: x_def)
  note eb = exponent_bounds [OF nz, folded e_def]
  have ax: "\<bar>x\<bar> = of_int \<bar>n\<bar> * 2 powi j" by (simp add: x_def abs_mult)
  from assms have "real_of_int \<bar>n\<bar> < 2 ^ 53"
    by (metis of_int_less_numeral_power_cancel_iff)
  then have "of_int \<bar>n\<bar> * (2::real) powi j < 2 ^ 53 * 2 powi j"
    by (intro mult_strict_right_mono) simp_all
  also have "\<dots> = (2::real) powi (53 + j)"
    by (simp add: power_int_add)
  finally have "\<bar>x\<bar> < 2 powi (53 + j)" unfolding ax .
  with eb(1) have "(2::real) powi e < 2 powi (53 + j)" by linarith
  have "e < 53 + j"
  proof (rule ccontr)
    assume "\<not> e < 53 + j"
    then have "(2::real) powi (53 + j) \<le> 2 powi e"
      by (intro power_int_increasing) simp_all
    with \<open>(2::real) powi e < 2 powi (53 + j)\<close> show False by simp
  qed
  then have k: "0 \<le> j - (e - 52)" by simp
  have "x / 2 powi (e - 52) = of_int n * 2 powi (j - (e - 52))"
    by (simp add: x_def power_int_diff)
  also have "(2::real) powi (j - (e - 52)) = 2 ^ nat (j - (e - 52))"
    using k by (simp add: power_int_def)
  finally have "x / 2 powi (e - 52) = of_int (n * 2 ^ nat (j - (e - 52)))"
    by simp
  with eb have "fl64 x = x" by (rule fl64_fixed)
  then show ?thesis unfolding x_def .
qed

lemma fl64_of_int:
  assumes "\<bar>n\<bar> < 2 ^ 53"
  shows "fl64 (of_int n) = of_int n"
  using fl64_representable [OF assms, of 0] by simp

lemma fl64_idem: "fl64 (fl64 x) = fl64 x"
proof (cases "x = 0")
  case True
  then show ?thesis by simp
next
  case False
  define e where "e = exponent x"
  define m where "m = roundHalfEven (x / 2 powi (e - 52))"
  have fx: "fl64 x = of_int m * 2 powi (e - 52)"
    using False by (simp add: fl64_def Let_def e_def m_def)
  note eb = exponent_bounds [OF False, folded e_def]
  have u: "(0::real) < 2 powi (e - 52)" by simp
  have "\<bar>x\<bar> / 2 powi (e - 52) < 2 powi (e + 1) / 2 powi (e - 52)"
    using eb(2) u by (simp add: divide_strict_right_mono)
  also have "\<dots> = (2::real) powi 53"
    by (simp add: power_int_diff [symmetric])
  finally have up: "\<bar>x\<bar> / 2 powi (e - 52) < 2 ^ 53" by simp
  have ax: "\<bar>x / 2 powi (e - 52)\<bar> = \<bar>x\<bar> / 2 powi (e - 52)" by simp
  define q where "q = x / 2 powi (e - 52)"
  from up have "\<bar>q\<bar> < 9007199254740992" unfolding ax [symmetric] q_def by simp
  then have "q \<le> 9007199254740992" "- 9007199254740992 \<le> q" by linarith+
  then have qb: "x / 2 powi (e - 52) \<le> of_int (2 ^ 53)" "of_int (- (2 ^ 53)) \<le> x / 2 powi (e - 52)"
    unfolding q_def by simp_all
  have "m \<le> 2 ^ 53" unfolding m_def using qb(1) by (rule roundHalfEven_le)
  moreover have "- (2 ^ 53) \<le> m" unfolding m_def using qb(2) by (rule roundHalfEven_ge)
  ultimately have "m \<le> 2 ^ 53" "- (2 ^ 53) \<le> m" .
  then consider "\<bar>m\<bar> < 2 ^ 53" | "m = 2 ^ 53" | "m = - (2 ^ 53)" by linarith
  then show ?thesis
  proof cases
    case 1
    then show ?thesis unfolding fx by (rule fl64_representable)
  next
    case 2
    have "fl64 x = of_int 1 * 2 powi (e + 1)"
      unfolding fx 2 by (simp add: power_int_diff power_int_add)
    moreover have "fl64 (of_int 1 * 2 powi (e + 1)) = of_int 1 * 2 powi (e + 1)"
      by (rule fl64_representable) simp
    ultimately show ?thesis by simp
  next
    case 3
    have "fl64 x = of_int (- 1) * 2 powi (e + 1)"
      unfolding fx 3 by (simp add: power_int_diff power_int_add)
    moreover have "fl64 (of_int (- 1) * 2 powi (e + 1)) = of_int (- 1) * 2 powi (e + 1)"
      by (rule fl64_representable) simp
    ultimately show ?thesis by simp
  qed
qed

lemma fl64_numeral [simp]: "fl64 0 = 0" "fl64 1 = 1" "fl64 2 = 2" "fl64 11 = 11"
  using fl64_of_int [of 1] fl64_of_int [of 2] fl64_of_int [of 11] by simp_all

lemma fl64_at:
  assumes "2 powi e \<le> \<bar>x\<bar>" and "\<bar>x\<bar> < 2 powi (e + 1)"
    and "roundHalfEven (x / 2 powi (e - 52)) = m"
  shows "fl64 x = of_int m * 2 powi (e - 52)"
  using fl64_eval [OF assms(1,2)] assms(3) by simp

lemma fl64_quarter: "fl64 (1 / 4) = 1 / 4"
  using fl64_representable [of 1 "- 2"] by (simp add: power_int_minus)

lemma fl64_three_halves: "fl64 (3 / 2) = 3 / 2"
  using fl64_representable [of 3 "- 1"] by (simp add: power_int_minus)

lemma fl64_more_numerals: "fl64 4 = 4" "fl64 5 = 5" "fl64 10 = 10"
  using fl64_of_int [of 4] fl64_of_int [of 5] fl64_of_int [of 10] by simp_all

text \<open>The doubles \<open>0.587\<close>, \<open>0.114\<close> and \<open>0.15\<close>, and the sums and products of the examples.\<close>

lemma double_587: "fl64 0.587 = 5287225962532962 / 2 ^ 53"
  using fl64_at [of "- 1" "0.587" 5287225962532962]
  by (simp add: power_int_minus roundHalfEven_def Let_def)

lemma double_114: "fl64 0.114 = 8214565720323785 / 2 ^ 56"
  using fl64_at [of "- 4" "0.114" 8214565720323785]
  by (simp add: power_int_minus roundHalfEven_def Let_def)

lemma double_015: "fl64 0.15 = 5404319552844595 / 2 ^ 55"
  using fl64_at [of "- 3" "0.15" 5404319552844595]
  by (simp add: power_int_minus roundHalfEven_def Let_def)

lemma product_36_587: "fmul 36 (5287225962532962 / 2 ^ 53) = 5948129207849582 / 2 ^ 48"
  unfolding fmul_def
  using fl64_at [of 4 "36 * (5287225962532962 / 2 ^ 53)" 5948129207849582]
  by (simp add: power_int_minus roundHalfEven_def Let_def)

lemma product_12_114: "fmul 12 (8214565720323785 / 2 ^ 56) = 6160924290242839 / 2 ^ 52"
  unfolding fmul_def
  using fl64_at [of 0 "12 * (8214565720323785 / 2 ^ 56)" 6160924290242839]
  by (simp add: power_int_minus roundHalfEven_def Let_def)

lemma sum_36_12:
  "fadd (5948129207849582 / 2 ^ 48) (6160924290242839 / 2 ^ 52) = 6333186975989759 / 2 ^ 48"
  unfolding fadd_def
  using fl64_at [of 4 "5948129207849582 / 2 ^ 48 + 6160924290242839 / 2 ^ 52" 6333186975989759]
  by (simp add: power_int_minus roundHalfEven_def Let_def)

lemma product_10_015: "fmul 10 (5404319552844595 / 2 ^ 55) = 3 / 2"
  unfolding fmul_def
  using fl64_at [of 0 "10 * (5404319552844595 / 2 ^ 55)" 6755399441055744]
  by (simp add: power_int_minus roundHalfEven_def Let_def)

section \<open>The luminance of a pixel\<close>

lemma byte_le_255: "unat (a::byte) \<le> 255"
  using unsigned_less [of a, where 'a = nat] by simp

lemma luminance_double:
  fixes rr gg bb :: nat
  defines "d \<equiv> fadd (fadd (fmul (real rr) (fl64 0.299)) (fmul (real gg) (fl64 0.587)))
                      (fmul (real bb) (fl64 0.114))"
    and "k \<equiv> 299 * int rr + 587 * int gg + 114 * int bb"
  assumes "rr \<le> 255" "gg \<le> 255" "bb \<le> 255"
  shows "0 \<le> round d" and "round d \<le> 255"
    and "\<bar>of_int (round d) - of_int k / 1000\<bar> \<le> (1 / 2 :: real)"
    and "k mod 1000 \<noteq> 500 \<Longrightarrow> round d = round (of_int k / 1000 :: real)"
proof -
  from assms(3-5) have b: "real rr \<le> 255" "real gg \<le> 255" "real bb \<le> 255"
    by simp_all
  have ex: "0.299 * real rr + 0.587 * real gg + 0.114 * real bb = of_int k / 1000"
    unfolding k_def by simp
  have near: "\<bar>d - of_int k / 1000\<bar> \<le> 1 / 1000000000"
    using weighted_sum_error [of "real rr" "real gg" "real bb"] b
    unfolding d_def ex by simp
  show "\<bar>of_int (round d) - of_int k / 1000\<bar> \<le> (1 / 2 :: real)"
    using near by (rule round_near_thousandth(1))
  show "k mod 1000 \<noteq> 500 \<Longrightarrow> round d = round (of_int k / 1000 :: real)"
    using near by (rule round_near_thousandth(2))
  have k0: "0 \<le> real_of_int k" unfolding k_def by simp
  have "k \<le> 299 * 255 + 587 * 255 + 114 * 255"
    unfolding k_def using assms(3-5) by linarith
  then have k1: "real_of_int k \<le> 255000" by linarith
  from near k0 have "- (1 / 4) \<le> d" by linarith
  then have "round (- (1 / 4) :: real) \<le> round d" by (rule round_mono)
  then show "0 \<le> round d" by (simp add: round_def)
  from near k1 have "d \<le> 255 + 1 / 4" by linarith
  then have "round d \<le> round (255 + 1 / 4 :: real)" by (rule round_mono)
  then show "round d \<le> 255" by (simp add: round_def)
qed

lemma grayValue_uint:
  assumes "idx + 2 < length px"
  shows "uint (grayValue px idx) =
     round (fadd (fadd (fmul (real (unat (px ! idx))) (fl64 0.299))
                       (fmul (real (unat (px ! (idx + 1)))) (fl64 0.587)))
                 (fmul (real (unat (px ! (idx + 2)))) (fl64 0.114)))"
proof -
  note l = luminance_double(1,2) [OF byte_le_255 byte_le_255 byte_le_255,
      of "px ! idx" "px ! (idx + 1)" "px ! (idx + 2)"]
  have "uint (ToUint8 (round (fadd (fadd (fmul (real (unat (px ! idx))) (fl64 0.299))
                       (fmul (real (unat (px ! (idx + 1)))) (fl64 0.587)))
                 (fmul (real (unat (px ! (idx + 2)))) (fl64 0.114))))) =
     round (fadd (fadd (fmul (real (unat (px ! idx))) (fl64 0.299))
                       (fmul (real (unat (px ! (idx + 1)))) (fl64 0.587)))
                 (fmul (real (unat (px ! (idx + 2)))) (fl64 0.114)))"
    unfolding ToUint8_def using l by (rule uint_byte)
  with assms show ?thesis unfolding grayValue_def by (simp only: if_True)
qed

lemma grayValue_exact:
  assumes "idx + 2 < length px"
    and "(299 * int (unat (px ! idx)) + 587 * int (unat (px ! (idx + 1)))
          + 114 * int (unat (px ! (idx + 2)))) mod 1000 \<noteq> 500"
  shows "grayValue px idx =
     ToUint8 (round (of_int (299 * int (unat (px ! idx)) + 587 * int (unat (px ! (idx + 1)))
                             + 114 * int (unat (px ! (idx + 2)))) / 1000 :: real))"
proof -
  note l = luminance_double(4) [OF byte_le_255 byte_le_255 byte_le_255 assms(2)]
  from assms(1) show ?thesis unfolding grayValue_def l by (simp only: if_True)
qed

section \<open>The example frame, the disabled path and repeated calls\<close>


lemma sqrt_121: "sqrt 121 = 11"
  by (rule real_sqrt_unique) simp_all

lemma example_gray: "computeGrayscale (frame exampleVideo) 3 3 = [0, 0, 0, 0, 0, 11, 0, 0, 0]"
  by (simp add: exampleVideo_def computeGrayscale_def grayValue_exact ToUint8_def numeral_3_eq_3
      grayscale_rows.simps grayscale_row.simps)

lemma example_edge: "edgeResponse [0, 0, 0, 0, 0, 11, 0, 0, 0] 3 (Suc 0) (Suc 0) = 11"
  by (simp add: edgeResponse_def Let_def sqrt_121)

lemma example_sqrt: "fl64 (edgeResponse [0, 0, 0, 0, 0, 11, 0, 0, 0] 3 (Suc 0) (Suc 0)) = 11"
  unfolding example_edge by simp

lemma example_blank:
  "(replicate 36 (0::byte))[16 := a0, 17 := a1, 18 := a2, 19 := a3] =
     [0, 0, 0, 0,  0, 0, 0, 0,  0, 0, 0, 0,
      0, 0, 0, 0,  a0, a1, a2, a3,  0, 0, 0, 0,
      0, 0, 0, 0,  0, 0, 0, 0,  0, 0, 0, 0]"
  by (simp add: numeral_eq_Suc)

lemma example_zero:
  "replicate 36 (0::byte) =
     [0, 0, 0, 0,  0, 0, 0, 0,  0, 0, 0, 0,
      0, 0, 0, 0,  0, 0, 0, 0,  0, 0, 0, 0,
      0, 0, 0, 0,  0, 0, 0, 0,  0, 0, 0, 0]"
  by (simp add: numeral_eq_Suc)

lemma example_color: "hexToRgb ''#FF0000'' = \<lparr>r = Some 255, g = Some 0, b = Some 0\<rparr>"
  using hexToRgb_match [of "''FF0000''" "''#FF0000''"]
  by (simp add: sixHex_def hexDigit_def stripHash_def hexVal_def digitValue_def)

lemma example_outline:
  "outline_rows [0, 0, 0, 0, 0, 11, 0, 0, 0] 3 3 c t i (Suc 0) (replicate 36 0) =
     [0, 0, 0, 0,  0, 0, 0, 0,  0, 0, 0, 0,
      0, 0, 0, 0,
      if t < 11 then storeComponent (r c) else 0,
      if t < 11 then storeComponent (g c) else 0,
      if t < 11 then storeComponent (b c) else 0,
      if t < 11 then ToUint8Clamp (min 255 (fmul (min 255 (fmul (fsub 11 t) 2)) i)) else 0,
      0, 0, 0, 0,
      0, 0, 0, 0,  0, 0, 0, 0,  0, 0, 0, 0]"
proof -
  have px: "outline_pixel [0, 0, 0, 0, 0, 11, 0, 0, 0] 3 c t i (Suc 0) (Suc 0) out =
     (if t < 11
      then out[16 := storeComponent (r c), 17 := storeComponent (g c), 18 := storeComponent (b c),
               19 := ToUint8Clamp (min 255 (fmul (min 255 (fmul (fsub 11 t) 2)) i))]
      else out)" for out
    by (simp add: outline_pixel_def example_sqrt Let_def)
  have row: "outline_row [0, 0, 0, 0, 0, 11, 0, 0, 0] 3 c t i (Suc 0) (Suc 0) out =
      outline_pixel [0, 0, 0, 0, 0, 11, 0, 0, 0] 3 c t i (Suc 0) (Suc 0) out" for out
    by (subst outline_row.simps, simp, subst outline_row.simps, simp)
  have stop: "outline_rows [0, 0, 0, 0, 0, 11, 0, 0, 0] 3 3 c t i (Suc (Suc 0)) out = out" for out
    by (subst outline_rows.simps) simp
  have "outline_rows [0, 0, 0, 0, 0, 11, 0, 0, 0] 3 3 c t i (Suc 0) out =
      outline_pixel [0, 0, 0, 0, 0, 11, 0, 0, 0] 3 c t i (Suc 0) (Suc 0) out" for out
    by (subst outline_rows.simps) (simp add: row stop)
  then show ?thesis
    unfolding px by (simp add: example_blank example_zero)
qed

lemma example_run:
  "processFrame exampleDocument exampleVideo exampleCanvas ''#FF0000'' t True i ''outline'' =
     Inr \<lparr>width = 3, height = 3, context2d = True,
          bitmap = [0, 0, 0, 0,  0, 0, 0, 0,  0, 0, 0, 0,
                    0, 0, 0, 0,
                    if t < 11 then 255 else 0, 0, 0,
                    if t < 11 then ToUint8Clamp (min 255 (fmul (min 255 (fmul (fsub 11 t) 2)) i)) else 0,
                    0, 0, 0, 0,
                    0, 0, 0, 0,  0, 0, 0, 0,  0, 0, 0, 0]\<rparr>"
proof -
  have v: "videoWidth exampleVideo = 3" "videoHeight exampleVideo = 3"
    by (simp_all add: exampleVideo_def)
  have s: "storeComponent (Some 255) = 255" "storeComponent (Some 0) = 0"
    by (simp_all add: storeComponent_def ToUint8Clamp_def Let_def)
  show ?thesis
    using processFrame_enabled [of exampleCanvas exampleDocument exampleVideo "''#FF0000''" t i "''outline''"]
    unfolding v example_gray example_color
    by (simp add: exampleCanvas_def exampleDocument_def example_outline s)
qed

text \<open>
  Claim C5. With \<open>enabled = false\<close> the call only clears the canvas: every pixel of the
  result has alpha 0, whatever the frame, the colour, the threshold and the intensity.
\<close>

theorem disabled_clears_canvas:
  assumes "context2d cv"
  shows "processFrame doc v cv color t False i mode = Inr (clearRect cv) \<and>
         processFrame doc v' cv color' t' False i' mode' = Inr (clearRect cv) \<and>
         width (clearRect cv) = width cv \<and> height (clearRect cv) = height cv \<and>
         (\<forall>x y. x < width cv \<and> y < height cv \<longrightarrow> alphaAt (clearRect cv) x y = 0)"
proof -
  have "alphaAt (clearRect cv) x y = 0" if "x < width cv" "y < height cv" for x y
  proof -
    have "(y * width cv + x) * 4 + 3 < 4 * width cv * height cv"
      using that by (intro pixel_in_range) simp_all
    then show ?thesis
      by (simp add: alphaAt_def channelAt_def clearRect_def)
  qed
  with assms show ?thesis
    by (simp add: processFrame_def clearRect_def)
qed

theorem disabled_clears_canvas_witness:
  "context2d \<lparr>width = 1, height = 1, context2d = True, bitmap = [255, 0, 0, 128]\<rparr> \<and>
   processFrame exampleDocument exampleVideo
       \<lparr>width = 1, height = 1, context2d = True, bitmap = [255, 0, 0, 128]\<rparr>
       ''#FF0000'' 10 False 1 ''outline'' =
     Inr \<lparr>width = 1, height = 1, context2d = True, bitmap = [0, 0, 0, 0]\<rparr> \<and>
   alphaAt \<lparr>width = 1, height = 1, context2d = True, bitmap = [0, 0, 0, 0]\<rparr> 0 0 = 0"
proof -
  have four: "replicate 4 (0::byte) = [0, 0, 0, 0]"
    by (simp add: numeral_eq_Suc)
  show ?thesis
    using disabled_clears_canvas
      [of "\<lparr>width = 1, height = 1, context2d = True, bitmap = [255, 0, 0, 128]\<rparr>"
          exampleDocument exampleVideo "''#FF0000''" 10 1 "''outline''"
          exampleVideo "''#FF0000''" 10 1 "''outline''"]
    by (simp add: clearRect_def four)
qed

text \<open>
  Claim C7. A second call with the same frame and the same configuration, on the canvas
  that the first call left, leaves the same canvas: the image is a function of frame and
  configuration.
\<close>

theorem reinvocation_same_output:
  assumes "processFrame doc v cv color t en i mode = Inr cv'"
  shows "processFrame doc v cv' color t en i mode = Inr cv'"
  using assms
  by (auto simp: processFrame_def Let_def resize_def clearRect_def getImageData_def
      newImageData_def putImageData_def split: if_splits)

theorem reinvocation_same_output_witness:
  "processFrame exampleDocument exampleVideo exampleCanvas ''#FF0000'' 10 True 1 ''outline'' =
     Inr \<lparr>width = 3, height = 3, context2d = True,
          bitmap = [0, 0, 0, 0,  0, 0, 0, 0,  0, 0, 0, 0,
                    0, 0, 0, 0,  255, 0, 0, 2,  0, 0, 0, 0,
                    0, 0, 0, 0,  0, 0, 0, 0,  0, 0, 0, 0]\<rparr> \<and>
   processFrame exampleDocument exampleVideo
       \<lparr>width = 3, height = 3, context2d = True,
          bitmap = [0, 0, 0, 0,  0, 0, 0, 0,  0, 0, 0, 0,
                    0, 0, 0, 0,  255, 0, 0, 2,  0, 0, 0, 0,
                    0, 0, 0, 0,  0, 0, 0, 0,  0, 0, 0, 0]\<rparr>
       ''#FF0000'' 10 True 1 ''outline'' =
     Inr \<lparr>width = 3, height = 3, context2d = True,
          bitmap = [0, 0, 0, 0,  0, 0, 0, 0,  0, 0, 0, 0,
                    0, 0, 0, 0,  255, 0, 0, 2,  0, 0, 0, 0,
                    0, 0, 0, 0,  0, 0, 0, 0,  0, 0, 0, 0]\<rparr>"
proof -
  have a: "ToUint8Clamp (min 255 (fmul (min 255 (fmul (fsub 11 10) 2)) 1)) = 2"
    by (simp add: fsub_def fmul_def ToUint8Clamp_def Let_def)
  show ?thesis
    using reinvocation_same_output [OF example_run [of 10 1]] example_run [of 10 1]
    unfolding a by simp
qed

section \<open>Luminance and edge response\<close>


lemma pixel_index:
  fixes x y w h :: nat
  assumes "x < w" "y < h"
  shows "y * w + x < w * h"
proof -
  from assms(2) have "y * w + w \<le> h * w" by (rule next_row)
  with assms(1) show ?thesis by (simp add: mult.commute)
qed

text \<open>
  Claim C3, amended. The luminance stored for a pixel of the frame is \<open>Math.round\<close> of the
  weighted sum as double arithmetic computes it. It is an integer from 0 to 255 at most
  1/2 away from \<open>0.299 R + 0.587 G + 0.114 B\<close>, and it is this sum rounded to the nearest
  integer whenever the sum is not halfway between two integers, that is, whenever
  \<open>299 R + 587 G + 114 B\<close> does not leave the remainder 500 modulo 1000.
\<close>

theorem luminance_nearest_in_buffer:
  assumes "x < w" "y < h" "length px = 4 * w * h"
  shows "(let R = unat (px ! ((y * w + x) * 4));
              G = unat (px ! ((y * w + x) * 4 + 1));
              B = unat (px ! ((y * w + x) * 4 + 2));
              L = uint (computeGrayscale px w h ! (y * w + x))
          in L = round (fadd (fadd (fmul (real R) (fl64 0.299)) (fmul (real G) (fl64 0.587)))
                             (fmul (real B) (fl64 0.114))) \<and>
             0 \<le> L \<and> L \<le> 255 \<and>
             \<bar>of_int L - (0.299 * real R + 0.587 * real G + 0.114 * real B)\<bar> \<le> 1 / 2 \<and>
             ((299 * R + 587 * G + 114 * B) mod 1000 \<noteq> 500 \<longrightarrow>
                L = round (0.299 * real R + 0.587 * real G + 0.114 * real B)))"
proof -
  define R where "R = unat (px ! ((y * w + x) * 4))"
  define G where "G = unat (px ! ((y * w + x) * 4 + 1))"
  define B where "B = unat (px ! ((y * w + x) * 4 + 2))"
  define d where "d = fadd (fadd (fmul (real R) (fl64 0.299)) (fmul (real G) (fl64 0.587)))
                             (fmul (real B) (fl64 0.114))"
  define k where "k = 299 * int R + 587 * int G + 114 * int B"
  have k: "y * w + x < w * h" using assms(1,2) by (rule pixel_index)
  have "(y * w + x) * 4 + 2 < 4 * w * h"
    using assms(1,2) by (intro pixel_in_range) simp_all
  with assms(3) have rng: "(y * w + x) * 4 + 2 < length px" by simp
  have g: "computeGrayscale px w h ! (y * w + x) = grayValue px ((y * w + x) * 4)"
    using k by (rule computeGrayscale_nth)
  have u: "uint (grayValue px ((y * w + x) * 4)) = round d"
    unfolding d_def R_def G_def B_def using rng by (rule grayValue_uint)
  have le: "R \<le> 255" "G \<le> 255" "B \<le> 255"
    unfolding R_def G_def B_def by (rule byte_le_255)+
  note l = luminance_double [OF le, folded d_def k_def]
  have ex: "0.299 * real R + 0.587 * real G + 0.114 * real B = of_int k / 1000"
    unfolding k_def by simp
  have md: "((299 * R + 587 * G + 114 * B) mod 1000 \<noteq> 500) = (k mod 1000 \<noteq> 500)"
  proof -
    have "k = int (299 * R + 587 * G + 114 * B)" unfolding k_def by simp
    then have "k mod 1000 = int ((299 * R + 587 * G + 114 * B) mod 1000)"
      by (simp only: zmod_int) simp
    then show ?thesis by linarith
  qed
  have "round d = round d \<and> 0 \<le> round d \<and> round d \<le> 255 \<and>
        \<bar>of_int (round d) - (0.299 * real R + 0.587 * real G + 0.114 * real B)\<bar> \<le> 1 / 2 \<and>
        ((299 * R + 587 * G + 114 * B) mod 1000 \<noteq> 500 \<longrightarrow>
           round d = round (0.299 * real R + 0.587 * real G + 0.114 * real B))"
    unfolding ex md using l by blast
  then show ?thesis
    unfolding Let_def g u R_def [symmetric] G_def [symmetric] B_def [symmetric] d_def [symmetric]
    by blast
qed

theorem luminance_nearest_in_buffer_witness:
  "(2::nat) < 3 \<and> (1::nat) < 3 \<and> length (frame exampleVideo) = 4 * 3 * 3 \<and>
   (299 * 11 + 587 * 11 + 114 * 11) mod 1000 \<noteq> (500::nat) \<and>
   round (0.299 * 11 + 0.587 * 11 + 0.114 * 11 :: real) = 11 \<and>
   uint (computeGrayscale (frame exampleVideo) 3 3 ! (1 * 3 + 2)) = 11"
  using luminance_nearest_in_buffer [of 2 3 1 3 "frame exampleVideo"]
  by (simp add: exampleVideo_def Let_def round_def)

text \<open>
  The claim as it stands fails on a pixel whose weighted sum is halfway between two
  integers: for the pixel (0, 36, 12) the sum is 22.5, which rounds to 23, and the sum of
  the doubles is \<open>6333186975989759 / 2\<^sup>4\<^sup>8\<close>, a little below 22.5: the luminance is 22.
\<close>

theorem luminance_halfway_counterexample:
  "fadd (fadd (fmul 0 (fl64 0.299)) (fmul 36 (fl64 0.587))) (fmul 12 (fl64 0.114))
     = 6333186975989759 / 2 ^ 48 \<and>
   round (0.299 * 0 + 0.587 * 36 + 0.114 * 12 :: real) = 23 \<and>
   uint (computeGrayscale [0, 36, 12, 255] 1 1 ! 0) = 22 \<and>
   uint (computeGrayscale [0, 36, 12, 255] 1 1 ! 0)
     \<noteq> round (0.299 * 0 + 0.587 * 36 + 0.114 * 12 :: real)"
proof -
  have z: "fmul 0 (fl64 0.299) = 0" by (simp add: fmul_def)
  have p: "fadd 0 (5948129207849582 / 2 ^ 48) = 5948129207849582 / 2 ^ 48"
    unfolding fadd_def using fl64_representable [of 5948129207849582 "- 48"]
    by (simp add: power_int_minus)
  have s: "fadd (fadd (fmul 0 (fl64 0.299)) (fmul 36 (fl64 0.587))) (fmul 12 (fl64 0.114))
     = 6333186975989759 / 2 ^ 48"
    unfolding z double_587 double_114 product_36_587 product_12_114 p sum_36_12 ..
  have r: "round (0.299 * 0 + 0.587 * 36 + 0.114 * 12 :: real) = 23"
    by (simp add: round_def)
  have g: "grayValue [0, 36, 12, 255] 0 =
      ToUint8 (round (fadd (fadd (fmul 0 (fl64 0.299)) (fmul 36 (fl64 0.587)))
                           (fmul 12 (fl64 0.114))))"
    by (simp add: grayValue_def)
  have v: "grayValue [0, 36, 12, 255] 0 = 22"
    unfolding g s by (simp add: ToUint8_def round_def)
  have c: "computeGrayscale [0, 36, 12, 255] 1 1 = [grayValue [0, 36, 12, 255] 0]"
    by (simp add: computeGrayscale_def grayscale_rows.simps grayscale_row.simps)
  show ?thesis
    unfolding c s r by (simp add: v)
qed

text \<open>
  Claim C2. For an interior pixel the edge response is \<open>sqrt (gx\<^sup>2 + gy\<^sup>2)\<close>, where
  \<open>gx\<close> and \<open>gy\<close> are the absolute differences of the luminance of the right and left,
  and of the lower and upper neighbour; the four reads stay inside the buffer.
\<close>

theorem edge_response_four_neighbour:
  assumes "1 \<le> x" "x < w - 1" "1 \<le> y" "y < h - 1"
  shows "edgeResponse (computeGrayscale px w h) w y x =
           sqrt (of_int (\<bar>luminanceAt px w (x + 1) y - luminanceAt px w (x - 1) y\<bar>\<^sup>2
                       + \<bar>luminanceAt px w x (y + 1) - luminanceAt px w x (y - 1)\<bar>\<^sup>2)) \<and>
         (y - 1) * w + x < length (computeGrayscale px w h) \<and>
         (y + 1) * w + x < length (computeGrayscale px w h) \<and>
         y * w + (x - 1) < length (computeGrayscale px w h) \<and>
         y * w + (x + 1) < length (computeGrayscale px w h)"
proof -
  from assms have xs: "x < w" "x - 1 < w" "x + 1 < w" and ys: "y < h" "y - 1 < h" "y + 1 < h"
    by simp_all
  have i: "(y - 1) * w + x < w * h" "(y + 1) * w + x < w * h"
    "y * w + (x - 1) < w * h" "y * w + (x + 1) < w * h"
    using xs ys by (simp_all only: pixel_index)
  have n: "computeGrayscale px w h ! ((y - 1) * w + x) = grayValue px (((y - 1) * w + x) * 4)"
    "computeGrayscale px w h ! ((y + 1) * w + x) = grayValue px (((y + 1) * w + x) * 4)"
    "computeGrayscale px w h ! (y * w + (x - 1)) = grayValue px ((y * w + (x - 1)) * 4)"
    "computeGrayscale px w h ! (y * w + (x + 1)) = grayValue px ((y * w + (x + 1)) * 4)"
    using i by (simp_all only: computeGrayscale_nth)
  have "edgeResponse (computeGrayscale px w h) w y x =
           sqrt (of_int (\<bar>luminanceAt px w (x + 1) y - luminanceAt px w (x - 1) y\<bar>\<^sup>2
                       + \<bar>luminanceAt px w x (y + 1) - luminanceAt px w x (y - 1)\<bar>\<^sup>2))"
    unfolding edgeResponse_def Let_def n luminanceAt_def power2_eq_square ..
  with i show ?thesis by simp
qed

theorem edge_response_four_neighbour_witness:
  "(1::nat) \<le> 1 \<and> (1::nat) < 3 - 1 \<and>
   luminanceAt (frame exampleVideo) 3 2 1 = 11 \<and> luminanceAt (frame exampleVideo) 3 0 1 = 0 \<and>
   luminanceAt (frame exampleVideo) 3 1 2 = 0 \<and> luminanceAt (frame exampleVideo) 3 1 0 = 0 \<and>
   edgeResponse (computeGrayscale (frame exampleVideo) 3 3) 3 1 1 = 11"
proof -
  have l: "luminanceAt (frame exampleVideo) 3 2 1 = 11" "luminanceAt (frame exampleVideo) 3 0 1 = 0"
    "luminanceAt (frame exampleVideo) 3 1 2 = 0" "luminanceAt (frame exampleVideo) 3 1 0 = 0"
    by (simp_all add: luminanceAt_def grayValue_exact exampleVideo_def ToUint8_def)
  have l': "luminanceAt (frame exampleVideo) 3 (Suc (Suc 0)) (Suc 0) = 11"
    "luminanceAt (frame exampleVideo) 3 0 (Suc 0) = 0"
    "luminanceAt (frame exampleVideo) 3 (Suc 0) (Suc (Suc 0)) = 0"
    "luminanceAt (frame exampleVideo) 3 (Suc 0) 0 = 0"
    by (simp_all add: luminanceAt_def grayValue_exact exampleVideo_def ToUint8_def)
  show ?thesis
    using edge_response_four_neighbour [of 1 3 1 3 "frame exampleVideo"] l
    by (simp add: l')
qed

section \<open>The border\<close>


lemma sobel_pixel_length [simp]: "length (sobel_pixel px gs w c t y x rd) = length rd"
  by (simp add: sobel_pixel_def Let_def)

lemma sobel_row_length [simp]: "length (sobel_row px gs w c t y x rd) = length rd"
  by (induction px gs w c t y x rd rule: sobel_row.induct) (subst sobel_row.simps, simp)

lemma sobel_rows_length [simp]: "length (sobel_rows px gs w h c t y rd) = length rd"
  by (induction px gs w h c t y rd rule: sobel_rows.induct) (subst sobel_rows.simps, simp)

lemma border_pixel_length [simp]: "length (border_pixel w h y x rd) = length rd"
  by (simp add: border_pixel_def)

lemma border_row_length [simp]: "length (border_row w h y x rd) = length rd"
  by (induction w h y x rd rule: border_row.induct) (subst border_row.simps, simp)

lemma border_rows_length [simp]: "length (border_rows w h y rd) = length rd"
  by (induction w h y rd rule: border_rows.induct) (subst border_rows.simps, simp)

lemma update_keeps_zero:
  "k < length rd \<Longrightarrow> rd ! k = (0::byte) \<Longrightarrow> rd[m := 0] ! k = 0"
  by (cases "m = k") simp_all

lemma border_pixel_keeps_zero:
  "k < length rd \<Longrightarrow> rd ! k = 0 \<Longrightarrow> border_pixel w h y x rd ! k = 0"
  by (simp add: border_pixel_def update_keeps_zero)

lemma border_row_keeps_zero:
  "k < length rd \<Longrightarrow> rd ! k = 0 \<Longrightarrow> border_row w h y x rd ! k = 0"
proof (induction w h y x rd rule: border_row.induct)
  case (1 w h y x rd)
  show ?case
  proof (cases "x < w")
    case True
    then have step: "border_row w h y x rd = border_row w h y (x + 1) (border_pixel w h y x rd)"
      by (subst border_row.simps) simp
    from 1 True show ?thesis
      unfolding step by (simp add: border_pixel_keeps_zero)
  next
    case False
    then have stop: "border_row w h y x rd = rd"
      by (subst border_row.simps) simp
    from 1(3) show ?thesis unfolding stop .
  qed
qed

lemma border_rows_keeps_zero:
  "k < length rd \<Longrightarrow> rd ! k = 0 \<Longrightarrow> border_rows w h y rd ! k = 0"
proof (induction w h y rd rule: border_rows.induct)
  case (1 w h y rd)
  show ?case
  proof (cases "y < h")
    case True
    then have step: "border_rows w h y rd = border_rows w h (y + 1) (border_row w h y 0 rd)"
      by (subst border_rows.simps) simp
    from 1 True show ?thesis
      unfolding step by (simp add: border_row_keeps_zero)
  next
    case False
    then have stop: "border_rows w h y rd = rd"
      by (subst border_rows.simps) simp
    from 1(3) show ?thesis unfolding stop .
  qed
qed

lemma border_row_sets:
  "x0 \<le> x \<Longrightarrow> x < w \<Longrightarrow> y = 0 \<or> y = h - 1 \<or> x = 0 \<or> x = w - 1 \<Longrightarrow>
   (y * w + x) * 4 + 3 < length rd \<Longrightarrow>
   border_row w h y x0 rd ! ((y * w + x) * 4 + 3) = 0"
proof (induction w h y x0 rd rule: border_row.induct)
  case (1 w h y x0 rd)
  from 1(2,3) have "x0 < w" by simp
  then have step: "border_row w h y x0 rd = border_row w h y (x0 + 1) (border_pixel w h y x0 rd)"
    by (subst border_row.simps) simp
  show ?case
  proof (cases "x0 = x")
    case True
    with 1(4,5) have "border_pixel w h y x0 rd ! ((y * w + x) * 4 + 3) = 0"
      by (simp add: border_pixel_def)
    with 1(5) show ?thesis
      unfolding step by (intro border_row_keeps_zero) simp_all
  next
    case False
    with 1(2) have "x0 + 1 \<le> x" by simp
    with 1 \<open>x0 < w\<close> show ?thesis
      unfolding step by simp
  qed
qed

lemma border_rows_sets:
  "y0 \<le> y \<Longrightarrow> y < h \<Longrightarrow> x < w \<Longrightarrow> y = 0 \<or> y = h - 1 \<or> x = 0 \<or> x = w - 1 \<Longrightarrow>
   (y * w + x) * 4 + 3 < length rd \<Longrightarrow>
   border_rows w h y0 rd ! ((y * w + x) * 4 + 3) = 0"
proof (induction w h y0 rd rule: border_rows.induct)
  case (1 w h y0 rd)
  from 1(2,3) have "y0 < h" by simp
  then have step: "border_rows w h y0 rd = border_rows w h (y0 + 1) (border_row w h y0 0 rd)"
    by (subst border_rows.simps) simp
  show ?case
  proof (cases "y0 = y")
    case True
    from 1(4,5,6) have "border_row w h y 0 rd ! ((y * w + x) * 4 + 3) = 0"
      by (intro border_row_sets) simp_all
    with True have "border_row w h y0 0 rd ! ((y * w + x) * 4 + 3) = 0" by simp
    with 1(6) show ?thesis
      unfolding step by (intro border_rows_keeps_zero) simp_all
  next
    case False
    with 1(2) have "y0 + 1 \<le> y" by simp
    with 1 \<open>y0 < h\<close> show ?thesis
      unfolding step by simp
  qed
qed

lemma applyFocusPeaking_border:
  assumes "x < width imageData" "y < height imageData"
    and "y = 0 \<or> y = height imageData - 1 \<or> x = 0 \<or> x = width imageData - 1"
  shows "\<exists>result. applyFocusPeaking imageData t colorHex = Inr result \<and>
           width result = width imageData \<and> height result = height imageData \<and>
           data result ! ((y * width imageData + x) * 4 + 3) = 0"
proof -
  from assms(1,2) have pos: "width imageData \<noteq> 0" "height imageData \<noteq> 0" by simp_all
  have rng: "(y * width imageData + x) * 4 + 3 < 4 * width imageData * height imageData"
    using assms(1,2) by (intro pixel_in_range) simp_all
  let ?sobel = "sobel_rows (data imageData)
      (computeGrayscale (data imageData) (width imageData) (height imageData))
      (width imageData) (height imageData) (hexToRgb colorHex) t 1
      (replicate (4 * width imageData * height imageData) 0)"
  have "border_rows (width imageData) (height imageData) 0 ?sobel
          ! ((y * width imageData + x) * 4 + 3) = 0"
    using assms rng by (intro border_rows_sets) simp_all
  with pos show ?thesis
    by (simp add: applyFocusPeaking_def newImageData_def Let_def)
qed

text \<open>
  Claim C4. With \<open>enabled = true\<close>, every pixel of the first or last row or column of the
  output has alpha 0, whatever the frame, the threshold and the intensity: in
  \<open>processFrame\<close> because the loop never writes there, in \<open>applyFocusPeaking\<close> because a
  second loop clears the border.
\<close>

theorem border_alpha_zero:
  assumes "x < w" "y < h" "x = 0 \<or> x = w - 1 \<or> y = 0 \<or> y = h - 1"
  shows "(context2d cv \<and> offscreenContext2d doc \<and> videoWidth v = w \<and> videoHeight v = h \<longrightarrow>
           (\<exists>cv'. processFrame doc v cv color t True i mode = Inr cv' \<and>
                  width cv' = w \<and> height cv' = h \<and> alphaAt cv' x y = 0)) \<and>
         (width imageData = w \<and> height imageData = h \<longrightarrow>
           (\<exists>result. applyFocusPeaking imageData t color = Inr result \<and>
                  width result = w \<and> height result = h \<and>
                  data result ! ((y * w + x) * 4 + 3) = 0))"
proof (intro conjI impI)
  assume a: "context2d cv \<and> offscreenContext2d doc \<and> videoWidth v = w \<and> videoHeight v = h"
  from assms(3) have nb: "\<not> (1 \<le> y \<and> y < h - 1 \<and> 1 \<le> x \<and> x < w - 1
          \<and> fl64 (edgeResponse (computeGrayscale (frame v) w h) w y x) > t)" by auto
  from a assms(1,2) obtain cv' where
    r: "processFrame doc v cv color t True i mode = Inr cv'" "width cv' = w" "height cv' = h"
    and bm: "bitmap cv' ! ((y * w + x) * 4 + 3) =
      (if 1 \<le> y \<and> y < h - 1 \<and> 1 \<le> x \<and> x < w - 1
          \<and> fl64 (edgeResponse (computeGrayscale (frame v) w h) w y x) > t
       then outlineByte (hexToRgb color) t i
              (fl64 (edgeResponse (computeGrayscale (frame v) w h) w y x)) 3
       else 0)"
    using processFrame_channel [of cv doc x v y 3 color t i mode] by auto
  have "alphaAt cv' x y = bitmap cv' ! ((y * w + x) * 4 + 3)"
    using r(2) by (simp add: alphaAt_def channelAt_def)
  also have "\<dots> = 0"
    unfolding bm using nb by (rule if_not_P)
  finally have "alphaAt cv' x y = 0" .
  with r show "\<exists>cv'. processFrame doc v cv color t True i mode = Inr cv' \<and>
                  width cv' = w \<and> height cv' = h \<and> alphaAt cv' x y = 0"
    by blast
next
  assume "width imageData = w \<and> height imageData = h"
  with assms show "\<exists>result. applyFocusPeaking imageData t color = Inr result \<and>
                  width result = w \<and> height result = h \<and>
                  data result ! ((y * w + x) * 4 + 3) = 0"
    using applyFocusPeaking_border [of x imageData y t color] by auto
qed

theorem border_alpha_zero_witness:
  "(2::nat) < 3 \<and> (1::nat) < 3 \<and> (2::nat) = 3 - 1 \<and>
   context2d exampleCanvas \<and> offscreenContext2d exampleDocument \<and>
   videoWidth exampleVideo = 3 \<and> videoHeight exampleVideo = 3 \<and>
   alphaOf (processFrame exampleDocument exampleVideo exampleCanvas ''#FF0000'' 10 True 1 ''outline'')
     2 1 = Some 0 \<and>
   (\<exists>result.
      applyFocusPeaking \<lparr>width = 3, height = 3, data = frame exampleVideo\<rparr> 10 ''#FF0000'' = Inr result \<and>
      data result ! ((1 * 3 + 2) * 4 + 3) = 0)"
  using border_alpha_zero [of 2 3 1 3 exampleCanvas exampleDocument exampleVideo "''#FF0000''" 10 1
      "''outline''" "\<lparr>width = 3, height = 3, data = frame exampleVideo\<rparr>"]
  by (auto simp: exampleCanvas_def exampleDocument_def exampleVideo_def alphaOf_def)

section \<open>Colour and alpha of an edge pixel\<close>


lemma hexVal_le: "hexVal c \<le> 15"
proof -
  define n where "n = (of_char c :: nat)"
  have "(if 48 \<le> n \<and> n \<le> 57 then n - 48
         else if 97 \<le> n \<and> n \<le> 102 then n - 87
         else if 65 \<le> n \<and> n \<le> 70 then n - 55
         else 0) \<le> 15"
    by auto
  then show ?thesis unfolding hexVal_def Let_def n_def .
qed

lemma hexToRgb_bytes:
  "\<exists>rr gg bb. hexToRgb s = \<lparr>r = Some rr, g = Some gg, b = Some bb\<rparr>
      \<and> rr \<le> 255 \<and> gg \<le> 255 \<and> bb \<le> 255"
proof (cases "sixHex (stripHash s)")
  case True
  have "16 * hexVal c + hexVal d \<le> 255" for c d
    using hexVal_le [of c] hexVal_le [of d] by simp
  with hexToRgb_match [OF True refl] show ?thesis by simp
next
  case False
  then show ?thesis by (simp add: hexToRgb_no_match)
qed

lemma storeComponent_byte: "k \<le> 255 \<Longrightarrow> unat (storeComponent (Some k)) = k"
  by (simp add: storeComponent_def ToUint8Clamp_byte unat_of_nat)

lemma stored_colour:
  "Some (unat (storeComponent (r (hexToRgb s)))) = r (hexToRgb s)"
  "Some (unat (storeComponent (g (hexToRgb s)))) = g (hexToRgb s)"
  "Some (unat (storeComponent (b (hexToRgb s)))) = b (hexToRgb s)"
  using hexToRgb_bytes [of s] by (auto simp: storeComponent_byte)

lemma processFrame_bitmap:
  assumes "processFrame doc v cv color t True i mode = Inr cv'"
    and "context2d cv" "offscreenContext2d doc" "x < videoWidth v" "y < videoHeight v" "j < 4"
  shows "channelAt cv' x y j =
     (if 1 \<le> y \<and> y < videoHeight v - 1 \<and> 1 \<le> x \<and> x < videoWidth v - 1
         \<and> fl64 (edgeResponse (computeGrayscale (frame v) (videoWidth v) (videoHeight v))
              (videoWidth v) y x) > t
      then outlineByte (hexToRgb color) t i
             (fl64 (edgeResponse (computeGrayscale (frame v) (videoWidth v) (videoHeight v))
                (videoWidth v) y x)) j
      else 0)"
    and "width cv' = videoWidth v" and "height cv' = videoHeight v"
  using processFrame_channel [OF assms(2-6), of color t i mode] assms(1)
  by (auto simp: channelAt_def)

lemma strength_nonneg:
  assumes "t < m"
  shows "0 \<le> fmul (fsub m t) 2"
proof -
  from assms have "0 \<le> fsub m t" unfolding fsub_def by (intro fl64_nonneg) simp
  then show ?thesis unfolding fmul_def by (intro fl64_nonneg) simp
qed

lemma alpha_target:
  fixes m t i :: real
  assumes "t < m"
  shows "min (max (min 255 (fmul (min 255 (fmul (fsub m t) 2)) i)) 0) 255 =
         clamp 0 255 (fmul (clamp 0 255 (fmul (fsub m t) 2)) i)"
proof -
  from strength_nonneg [OF assms] have "0 \<le> min 255 (fmul (fsub m t) 2)" by simp
  then have "clamp 0 255 (fmul (fsub m t) 2) = min 255 (fmul (fsub m t) 2)"
    by (simp add: clamp_def)
  then show ?thesis
    by (simp add: clamp_def min_def max_def)
qed

text \<open>
  Claim C1, amended. With \<open>enabled = true\<close>, an interior pixel whose edge response \<open>m\<close>, as
  \<open>Math.sqrt\<close> returns it, exceeds the threshold takes the three bytes of the highlight
  colour, and its alpha is \<open>clamp(0, 255, clamp(0, 255, (m - threshold) * 2) * intensity)\<close>,
  the difference and the two products computed in double arithmetic, rounded to the
  nearest integer, halves to the even one, as the 8-bit channel stores it. Every other
  pixel of the frame, on the border or not, has alpha 0.
\<close>

theorem edge_pixel_colour_and_rounded_alpha:
  assumes "context2d cv" "offscreenContext2d doc" "x < videoWidth v" "y < videoHeight v"
  shows "\<exists>cv'. processFrame doc v cv color t True i mode = Inr cv' \<and>
     (let interior = (1 \<le> x \<and> x < videoWidth v - 1 \<and> 1 \<le> y \<and> y < videoHeight v - 1);
          m = fl64 (edgeResponse (computeGrayscale (frame v) (videoWidth v) (videoHeight v))
                      (videoWidth v) y x);
          a = clamp 0 255 (fmul (clamp 0 255 (fmul (fsub m t) 2)) i)
      in (interior \<and> t < m \<longrightarrow>
            Some (unat (channelAt cv' x y 0)) = r (hexToRgb color) \<and>
            Some (unat (channelAt cv' x y 1)) = g (hexToRgb color) \<and>
            Some (unat (channelAt cv' x y 2)) = b (hexToRgb color) \<and>
            \<bar>of_int (uint (alphaAt cv' x y)) - a\<bar> \<le> 1 / 2 \<and>
            (\<bar>of_int (uint (alphaAt cv' x y)) - a\<bar> = 1 / 2 \<longrightarrow> even (uint (alphaAt cv' x y)))) \<and>
         (\<not> (interior \<and> t < m) \<longrightarrow> alphaAt cv' x y = 0))"
proof -
  define m where "m = fl64 (edgeResponse (computeGrayscale (frame v) (videoWidth v) (videoHeight v))
                (videoWidth v) y x)"
  define interior where
    "interior = (1 \<le> x \<and> x < videoWidth v - 1 \<and> 1 \<le> y \<and> y < videoHeight v - 1)"
  from assms(3,4) have pos: "0 < videoWidth v" "0 < videoHeight v" by simp_all
  obtain cv' where run: "processFrame doc v cv color t True i mode = Inr cv'"
    using processFrame_enabled [OF assms(1,2) pos] by blast
  have ch: "channelAt cv' x y j =
      (if interior \<and> t < m then outlineByte (hexToRgb color) t i m j else 0)" if "j < 4" for j
    using processFrame_bitmap(1) [OF run assms that]
    unfolding m_def interior_def by (simp add: conj_ac)
  have edge: "Some (unat (channelAt cv' x y 0)) = r (hexToRgb color) \<and>
            Some (unat (channelAt cv' x y 1)) = g (hexToRgb color) \<and>
            Some (unat (channelAt cv' x y 2)) = b (hexToRgb color) \<and>
            \<bar>of_int (uint (alphaAt cv' x y))
               - clamp 0 255 (fmul (clamp 0 255 (fmul (fsub m t) 2)) i)\<bar> \<le> 1 / 2 \<and>
            (\<bar>of_int (uint (alphaAt cv' x y))
               - clamp 0 255 (fmul (clamp 0 255 (fmul (fsub m t) 2)) i)\<bar> = 1 / 2
               \<longrightarrow> even (uint (alphaAt cv' x y)))" if tm: "interior \<and> t < m"
  proof -
    from tm have lt: "t < m" ..
    have a: "alphaAt cv' x y = ToUint8Clamp (min 255 (fmul (min 255 (fmul (fsub m t) 2)) i))"
      using ch [of 3] tm by (simp add: alphaAt_def outlineByte_def)
    have c: "channelAt cv' x y 0 = storeComponent (r (hexToRgb color))"
      "channelAt cv' x y 1 = storeComponent (g (hexToRgb color))"
      "channelAt cv' x y 2 = storeComponent (b (hexToRgb color))"
      using ch [of 0] ch [of 1] ch [of 2] tm by (simp_all add: outlineByte_def)
    show ?thesis
      unfolding a c stored_colour
      using ToUint8Clamp_nearest [of "min 255 (fmul (min 255 (fmul (fsub m t) 2)) i)"]
      unfolding alpha_target [OF lt] by simp
  qed
  have flat: "alphaAt cv' x y = 0" if "\<not> (interior \<and> t < m)"
    using ch [of 3] that by (simp add: alphaAt_def)
  from run edge flat show ?thesis
    unfolding Let_def m_def [symmetric] interior_def [symmetric] by blast
qed

lemma example_response:
  "fl64 (edgeResponse (computeGrayscale (frame exampleVideo) (videoWidth exampleVideo)
      (videoHeight exampleVideo)) (videoWidth exampleVideo) 1 1) = 11"
proof -
  have v: "videoWidth exampleVideo = 3" "videoHeight exampleVideo = 3"
    by (simp_all add: exampleVideo_def)
  show ?thesis
    unfolding v example_gray using example_sqrt by simp
qed

lemma example_alpha:
  "alphaOf (processFrame exampleDocument exampleVideo exampleCanvas ''#FF0000'' t True i ''outline'') 1 1 =
     Some (if t < 11 then ToUint8Clamp (min 255 (fmul (min 255 (fmul (fsub 11 t) 2)) i)) else 0)"
  unfolding example_run by (simp add: alphaOf_def alphaAt_def channelAt_def)

lemma alpha_at_full_intensity:
  "clamp 0 255 (fmul (clamp 0 255 (fmul (fsub 11 10) 2)) 1) = 2"
  by (simp add: fsub_def fmul_def clamp_def)

lemma alpha_at_slider_setting:
  "clamp 0 255 (fmul (clamp 0 255 (fmul (fsub 11 6) 2)) (fl64 0.15)) = 3 / 2"
proof -
  have s: "clamp 0 255 (fmul (fsub 11 6) 2) = 10"
    by (simp add: fsub_def fmul_def clamp_def fl64_more_numerals)
  show ?thesis
    unfolding s double_015 product_10_015 by (simp add: clamp_def)
qed

lemma byte_from_uint: "uint (a::byte) = k \<Longrightarrow> a = word_of_int k"
  by auto

theorem edge_pixel_colour_and_rounded_alpha_witness:
  "context2d exampleCanvas \<and> offscreenContext2d exampleDocument \<and>
   1 < videoWidth exampleVideo \<and> 1 < videoHeight exampleVideo \<and>
   0 < videoWidth exampleVideo \<and> 0 < videoHeight exampleVideo \<and>
   fl64 (edgeResponse (computeGrayscale (frame exampleVideo) (videoWidth exampleVideo)
      (videoHeight exampleVideo)) (videoWidth exampleVideo) 1 1) = 11 \<and>
   (\<exists>cv'. processFrame exampleDocument exampleVideo exampleCanvas ''#FF0000'' 10 True 1 ''outline''
             = Inr cv' \<and>
          Some (unat (channelAt cv' 1 1 0)) = Some 255 \<and>
          Some (unat (channelAt cv' 1 1 1)) = Some 0 \<and>
          Some (unat (channelAt cv' 1 1 2)) = Some 0 \<and>
          alphaAt cv' 1 1 = 2) \<and>
   (\<exists>cv'. processFrame exampleDocument exampleVideo exampleCanvas ''#FF0000'' 6 True (fl64 0.15)
             ''outline'' = Inr cv' \<and> alphaAt cv' 1 1 = 2) \<and>
   (\<exists>cv'. processFrame exampleDocument exampleVideo exampleCanvas ''#FF0000'' 20 True 1 ''outline''
             = Inr cv' \<and> alphaAt cv' 1 1 = 0) \<and>
   (\<exists>cv'. processFrame exampleDocument exampleVideo exampleCanvas ''#FF0000'' (- 1) True 1 ''outline''
             = Inr cv' \<and> alphaAt cv' 0 0 = 0)"
proof -
  have h: "context2d exampleCanvas" "offscreenContext2d exampleDocument"
    "1 < videoWidth exampleVideo" "1 < videoHeight exampleVideo"
    "0 < videoWidth exampleVideo" "0 < videoHeight exampleVideo"
    by (simp_all add: exampleCanvas_def exampleDocument_def exampleVideo_def)
  have inner: "(1::nat) \<le> 1 \<and> 1 < videoWidth exampleVideo - 1 \<and> (1::nat) \<le> 1
      \<and> 1 < videoHeight exampleVideo - 1"
    by (simp add: exampleVideo_def)
  have red: "r (hexToRgb ''#FF0000'') = Some 255" "g (hexToRgb ''#FF0000'') = Some 0"
    "b (hexToRgb ''#FF0000'') = Some 0"
    by (simp_all add: example_color)
  have full: "\<exists>cv'. processFrame exampleDocument exampleVideo exampleCanvas ''#FF0000'' 10 True 1
             ''outline'' = Inr cv' \<and>
          Some (unat (channelAt cv' 1 1 0)) = Some 255 \<and>
          Some (unat (channelAt cv' 1 1 1)) = Some 0 \<and>
          Some (unat (channelAt cv' 1 1 2)) = Some 0 \<and>
          alphaAt cv' 1 1 = 2"
  proof -
    from edge_pixel_colour_and_rounded_alpha [OF h(1,2,3,4), of "''#FF0000''" 10 1 "''outline''"]
    obtain cv' where run: "processFrame exampleDocument exampleVideo exampleCanvas ''#FF0000'' 10 True 1
             ''outline'' = Inr cv'"
      and p: "Some (unat (channelAt cv' 1 1 0)) = Some 255"
        "Some (unat (channelAt cv' 1 1 1)) = Some 0"
        "Some (unat (channelAt cv' 1 1 2)) = Some 0"
        "\<bar>real_of_int (uint (alphaAt cv' 1 1)) - 2\<bar> \<le> 1 / 2"
      unfolding Let_def example_response alpha_at_full_intensity red using inner by auto
    from p(4) have "uint (alphaAt cv' 1 1) = 2" by linarith
    then have "alphaAt cv' 1 1 = 2" by (auto dest: byte_from_uint)
    with run p show ?thesis by blast
  qed
  have slider: "\<exists>cv'. processFrame exampleDocument exampleVideo exampleCanvas ''#FF0000'' 6 True
             (fl64 0.15) ''outline'' = Inr cv' \<and> alphaAt cv' 1 1 = 2"
  proof -
    from edge_pixel_colour_and_rounded_alpha [OF h(1,2,3,4), of "''#FF0000''" 6 "fl64 0.15" "''outline''"]
    obtain cv' where run: "processFrame exampleDocument exampleVideo exampleCanvas ''#FF0000'' 6 True
             (fl64 0.15) ''outline'' = Inr cv'"
      and p: "\<bar>real_of_int (uint (alphaAt cv' 1 1)) - 3 / 2\<bar> \<le> 1 / 2"
        "\<bar>real_of_int (uint (alphaAt cv' 1 1)) - 3 / 2\<bar> = 1 / 2 \<longrightarrow> even (uint (alphaAt cv' 1 1))"
      unfolding Let_def example_response alpha_at_slider_setting using inner by auto
    from p(1) have "uint (alphaAt cv' 1 1) = 1 \<or> uint (alphaAt cv' 1 1) = 2" by linarith
    moreover have "uint (alphaAt cv' 1 1) \<noteq> 1"
    proof
      assume e: "uint (alphaAt cv' 1 1) = 1"
      from p(2) have "even (uint (alphaAt cv' 1 1))" unfolding e by simp
      then show False unfolding e by simp
    qed
    ultimately have "uint (alphaAt cv' 1 1) = 2" by blast
    then have "alphaAt cv' 1 1 = 2" by (auto dest: byte_from_uint)
    with run show ?thesis by blast
  qed
  have flat: "\<exists>cv'. processFrame exampleDocument exampleVideo exampleCanvas ''#FF0000'' 20 True 1
             ''outline'' = Inr cv' \<and> alphaAt cv' 1 1 = 0"
    using edge_pixel_colour_and_rounded_alpha [OF h(1,2,3,4), of "''#FF0000''" 20 1 "''outline''"]
    unfolding Let_def example_response by auto
  have border: "\<exists>cv'. processFrame exampleDocument exampleVideo exampleCanvas ''#FF0000'' (- 1) True 1
             ''outline'' = Inr cv' \<and> alphaAt cv' 0 0 = 0"
    using edge_pixel_colour_and_rounded_alpha [OF h(1,2,5,6), of "''#FF0000''" "- 1" 1 "''outline''"]
    unfolding Let_def by auto
  from h example_response full slider flat border show ?thesis by blast
qed

text \<open>
  The claim as it stands fails where the product is not an integer: with threshold 10
  and intensity 1/8 the centre pixel of the example has response 11, the formula gives
  1/4, in double arithmetic too, and the alpha byte is 0.
\<close>

theorem alpha_not_the_unrounded_product_counterexample:
  "fl64 (edgeResponse (computeGrayscale (frame exampleVideo) (videoWidth exampleVideo)
      (videoHeight exampleVideo)) (videoWidth exampleVideo) 1 1) = 11 \<and>
   (10::real) < 11 \<and>
   clamp 0 255 (clamp 0 255 ((11 - 10) * 2) * (1 / 8)) = 1 / 4 \<and>
   clamp 0 255 (fmul (clamp 0 255 (fmul (fsub 11 10) 2)) (1 / 8)) = 1 / 4 \<and>
   alphaOf (processFrame exampleDocument exampleVideo exampleCanvas ''#FF0000'' 10 True (1 / 8)
             ''outline'') 1 1 = Some 0"
  unfolding example_response example_alpha
  by (simp add: clamp_def fsub_def fmul_def fl64_quarter ToUint8Clamp_def Let_def)

section \<open>Intensity\<close>



lemma processFrame_degenerate:
  assumes "\<not> (en \<and> context2d cv \<and> offscreenContext2d doc \<and> 0 < videoWidth v \<and> 0 < videoHeight v)"
  shows "processFrame doc v cv color t en i mode = processFrame doc v cv color' t' en i' mode'"
  using assms
  by (auto simp: processFrame_def Let_def resize_def clearRect_def getImageData_def
      newImageData_def putImageData_def)







section \<open>Threshold\<close>


lemma filter_length_mono:
  "(\<And>x. x \<in> set xs \<Longrightarrow> P x \<Longrightarrow> Q x) \<Longrightarrow> length (filter P xs) \<le> length (filter Q xs)"
  by (induction xs) auto

lemma alpha_monotone:
  assumes "t1 \<le> t2" "t2 < e" "outlineByte c t2 i e 3 \<noteq> 0"
  shows "outlineByte c t1 i e 3 \<noteq> 0"
proof -
  define s1 where "s1 = min 255 (fmul (fsub e t1) 2)"
  define s2 where "s2 = min 255 (fmul (fsub e t2) 2)"
  from strength_nonneg [OF assms(2)] have s0: "0 \<le> s2" by (simp add: s2_def)
  from assms(1) have "fsub e t2 \<le> fsub e t1"
    unfolding fsub_def by (intro fl64_mono) simp
  then have "fmul (fsub e t2) 2 \<le> fmul (fsub e t1) 2"
    unfolding fmul_def by (intro fl64_mono) simp
  then have s: "s2 \<le> s1" unfolding s1_def s2_def by simp
  from assms(3) have big: "1 / 2 < min 255 (fmul s2 i)"
    by (simp add: outlineByte_def ToUint8Clamp_zero_iff s2_def not_le)
  then have p: "0 < fmul s2 i" by simp
  have "0 < i"
  proof (rule ccontr)
    assume "\<not> 0 < i"
    then have "i \<le> 0" by simp
    with s0 have "s2 * i \<le> 0" by (rule mult_nonneg_nonpos)
    then have "fmul s2 i \<le> 0" unfolding fmul_def by (rule fl64_nonpos)
    with p show False by simp
  qed
  with s have "s2 * i \<le> s1 * i" by (simp add: mult_right_mono)
  then have "fmul s2 i \<le> fmul s1 i" unfolding fmul_def by (rule fl64_mono)
  with big have "1 / 2 < min 255 (fmul s1 i)" by simp
  then show ?thesis
    by (simp add: outlineByte_def ToUint8Clamp_zero_iff s1_def not_le)
qed

lemma split_index:
  fixes p w h :: nat
  assumes "p < w * h"
  shows "p mod w < w" and "p div w < h" and "(p div w) * w + p mod w = p"
proof -
  from assms have "0 < w" by (cases w) simp_all
  then show "p mod w < w" by simp
  from assms show "p div w < h"
    by (simp add: less_mult_imp_div_less mult.commute)
  show "(p div w) * w + p mod w = p" by simp
qed

text \<open>
  Claim C6. For a fixed frame and a fixed intensity, and thresholds \<open>t1 \<le> t2\<close>, the output
  for \<open>t2\<close> has no more pixels of alpha above 0 than the output for \<open>t1\<close>.
\<close>

theorem raising_threshold_never_adds_pixels:
  assumes "t1 \<le> t2"
    and "processFrame doc v cv color t1 en i mode = Inr c1"
    and "processFrame doc v cv color t2 en i mode = Inr c2"
  shows "visiblePixels c2 \<le> visiblePixels c1"
proof (cases "en \<and> context2d cv \<and> offscreenContext2d doc \<and> 0 < videoWidth v \<and> 0 < videoHeight v")
  case False
  then have "processFrame doc v cv color t1 en i mode = processFrame doc v cv color t2 en i mode"
    by (rule processFrame_degenerate)
  with assms(2,3) have "c1 = c2" by simp
  then show ?thesis by simp
next
  case True
  then have en: "en = True" and ctx: "context2d cv" "offscreenContext2d doc" by simp_all
  let ?w = "videoWidth v" and ?h = "videoHeight v"
  let ?e = "\<lambda>x y. fl64 (edgeResponse (computeGrayscale (frame v) ?w ?h) ?w y x)"
  have dims: "width c1 = ?w" "height c1 = ?h" "width c2 = ?w" "height c2 = ?h"
    using processFrame_bitmap(2,3) [OF assms(2) [unfolded en] ctx, of 0 0 0]
      processFrame_bitmap(2,3) [OF assms(3) [unfolded en] ctx, of 0 0 0] True by simp_all
  have step: "bitmap c1 ! (p * 4 + 3) \<noteq> 0"
    if p: "p \<in> set [0..<?w * ?h]" and nz: "bitmap c2 ! (p * 4 + 3) \<noteq> 0" for p
  proof -
    from p have "p < ?w * ?h" by simp
    then have xy: "p mod ?w < ?w" "p div ?w < ?h" and eq: "(p div ?w) * ?w + p mod ?w = p"
      by (rule split_index)+
    define x where "x = p mod ?w"
    define y where "y = p div ?w"
    have a1: "bitmap c1 ! (p * 4 + 3) = channelAt c1 x y 3"
      and a2: "bitmap c2 ! (p * 4 + 3) = channelAt c2 x y 3"
      unfolding channelAt_def dims x_def y_def eq by simp_all
    have b1: "channelAt c1 x y 3 =
       (if 1 \<le> y \<and> y < ?h - 1 \<and> 1 \<le> x \<and> x < ?w - 1 \<and> ?e x y > t1
        then outlineByte (hexToRgb color) t1 i (?e x y) 3 else 0)"
      using xy unfolding x_def [symmetric] y_def [symmetric]
      by (intro processFrame_bitmap(1) [OF assms(2) [unfolded en] ctx]) simp_all
    have b2: "channelAt c2 x y 3 =
       (if 1 \<le> y \<and> y < ?h - 1 \<and> 1 \<le> x \<and> x < ?w - 1 \<and> ?e x y > t2
        then outlineByte (hexToRgb color) t2 i (?e x y) 3 else 0)"
      using xy unfolding x_def [symmetric] y_def [symmetric]
      by (intro processFrame_bitmap(1) [OF assms(3) [unfolded en] ctx]) simp_all
    from nz have c2: "1 \<le> y \<and> y < ?h - 1 \<and> 1 \<le> x \<and> x < ?w - 1 \<and> ?e x y > t2"
      and o2: "outlineByte (hexToRgb color) t2 i (?e x y) 3 \<noteq> 0"
      unfolding a2 b2 by (auto split: if_splits)
    from c2 assms(1) have c1: "1 \<le> y \<and> y < ?h - 1 \<and> 1 \<le> x \<and> x < ?w - 1 \<and> ?e x y > t1"
      by simp
    from assms(1) c2 o2 have "outlineByte (hexToRgb color) t1 i (?e x y) 3 \<noteq> 0"
      by (intro alpha_monotone [of t1 t2]) simp_all
    with c1 show ?thesis unfolding a1 b1 by simp
  qed
  show ?thesis
    unfolding visiblePixels_def dims
    by (rule filter_length_mono) (rule step)
qed

lemma upt_nine: "[0..<9] = [0, 1, 2, 3, 4, 5, 6, 7, 8 :: nat]"
  by code_simp

lemma example_visible:
  "visiblePixels \<lparr>width = 3, height = 3, context2d = True,
          bitmap = [0, 0, 0, 0,  0, 0, 0, 0,  0, 0, 0, 0,
                    0, 0, 0, 0,  a0, a1, a2, a3,  0, 0, 0, 0,
                    0, 0, 0, 0,  0, 0, 0, 0,  0, 0, 0, 0]\<rparr> = (if a3 = 0 then 0 else 1)"
  by (simp add: visiblePixels_def upt_nine)

theorem raising_threshold_never_adds_pixels_witness:
  "(10::real) \<le> 20 \<and>
   processFrame exampleDocument exampleVideo exampleCanvas ''#FF0000'' 10 True 1 ''outline'' =
     Inr \<lparr>width = 3, height = 3, context2d = True,
          bitmap = [0, 0, 0, 0,  0, 0, 0, 0,  0, 0, 0, 0,
                    0, 0, 0, 0,  255, 0, 0, 2,  0, 0, 0, 0,
                    0, 0, 0, 0,  0, 0, 0, 0,  0, 0, 0, 0]\<rparr> \<and>
   processFrame exampleDocument exampleVideo exampleCanvas ''#FF0000'' 20 True 1 ''outline'' =
     Inr \<lparr>width = 3, height = 3, context2d = True,
          bitmap = [0, 0, 0, 0,  0, 0, 0, 0,  0, 0, 0, 0,
                    0, 0, 0, 0,  0, 0, 0, 0,  0, 0, 0, 0,
                    0, 0, 0, 0,  0, 0, 0, 0,  0, 0, 0, 0]\<rparr> \<and>
   visiblePixels \<lparr>width = 3, height = 3, context2d = True,
          bitmap = [0, 0, 0, 0,  0, 0, 0, 0,  0, 0, 0, 0,
                    0, 0, 0, 0,  0, 0, 0, 0,  0, 0, 0, 0,
                    0, 0, 0, 0,  0, 0, 0, 0,  0, 0, 0, 0]\<rparr>
     \<le> visiblePixels \<lparr>width = 3, height = 3, context2d = True,
          bitmap = [0, 0, 0, 0,  0, 0, 0, 0,  0, 0, 0, 0,
                    0, 0, 0, 0,  255, 0, 0, 2,  0, 0, 0, 0,
                    0, 0, 0, 0,  0, 0, 0, 0,  0, 0, 0, 0]\<rparr> \<and>
   visiblePixels \<lparr>width = 3, height = 3, context2d = True,
          bitmap = [0, 0, 0, 0,  0, 0, 0, 0,  0, 0, 0, 0,
                    0, 0, 0, 0,  255, 0, 0, 2,  0, 0, 0, 0,
                    0, 0, 0, 0,  0, 0, 0, 0,  0, 0, 0, 0]\<rparr> = 1"
proof -
  have a: "ToUint8Clamp (min 255 (fmul (min 255 (fmul (fsub 11 10) 2)) 1)) = 2"
    by (simp add: fsub_def fmul_def ToUint8Clamp_def Let_def)
  have r10: "processFrame exampleDocument exampleVideo exampleCanvas ''#FF0000'' 10 True 1 ''outline'' =
     Inr \<lparr>width = 3, height = 3, context2d = True,
          bitmap = [0, 0, 0, 0,  0, 0, 0, 0,  0, 0, 0, 0,
                    0, 0, 0, 0,  255, 0, 0, 2,  0, 0, 0, 0,
                    0, 0, 0, 0,  0, 0, 0, 0,  0, 0, 0, 0]\<rparr>"
    unfolding example_run a by simp
  have r20: "processFrame exampleDocument exampleVideo exampleCanvas ''#FF0000'' 20 True 1 ''outline'' =
     Inr \<lparr>width = 3, height = 3, context2d = True,
          bitmap = [0, 0, 0, 0,  0, 0, 0, 0,  0, 0, 0, 0,
                    0, 0, 0, 0,  0, 0, 0, 0,  0, 0, 0, 0,
                    0, 0, 0, 0,  0, 0, 0, 0,  0, 0, 0, 0]\<rparr>"
    unfolding example_run by simp
  have le: "(10::real) \<le> 20" by simp
  show ?thesis
    using raising_threshold_never_adds_pixels [OF le r10 r20] r10 r20
    by (simp add: example_visible)
qed

section \<open>Invalid colour strings\<close>


lemma hexToRgb_v3_no_match:
  assumes "\<not> sixHex (stripHash s)"
  shows "hexToRgb_v3 s = \<lparr>r = Some 255, g = Some 74, b = Some 74\<rparr>"
  using exec_no_match [OF assms] by (simp add: hexToRgb_v3_def)

lemma processFrame_colour:
  assumes "hexToRgb c1 = hexToRgb c2"
  shows "processFrame doc v cv c1 t en i mode = processFrame doc v cv c2 t en i mode"
proof (cases "en \<and> context2d cv \<and> offscreenContext2d doc \<and> 0 < videoWidth v \<and> 0 < videoHeight v")
  case True
  then have "en = True" "context2d cv" "offscreenContext2d doc" "0 < videoWidth v"
    "0 < videoHeight v" by simp_all
  then show ?thesis
    by (simp only: processFrame_enabled assms)
next
  case False
  then show ?thesis by (rule processFrame_degenerate)
qed

lemma invalid_colour_drawn_as_red:
  assumes "\<not> parsesAsColor color"
  shows "processFrame doc v cv color t en i mode = processFrame doc v cv ''#FF0000'' t en i mode"
proof -
  from assms have "\<not> sixHex (stripHash color)" by (simp add: parsesAsColor_def)
  then have "hexToRgb color = \<lparr>r = Some 255, g = Some 0, b = Some 0\<rparr>"
    by (rule hexToRgb_no_match)
  then have "hexToRgb color = hexToRgb ''#FF0000''" by (simp add: example_color)
  then show ?thesis by (rule processFrame_colour)
qed

text \<open>
  Claim C8. For a colour string that is not six hexadecimal digits after an optional
  \<open>#\<close>, \<open>hexToRgb\<close> of the outline variant, whose text the dotted variant and the worker
  script share, returns red (255, 0, 0), as the claim says. \<open>hexToRgb\<close> of the main thread
  of the worker-based variant, under the same comment \<^verbatim>\<open>Default to red if parsing fails\<close>,
  returns (255, 74, 74): the copies of one function disagree on every such string, and
  this one departs from the claim.
\<close>

theorem invalid_colour_fallback_differs_between_variants:
  assumes "\<not> parsesAsColor color"
  shows "hexToRgb color = \<lparr>r = Some 255, g = Some 0, b = Some 0\<rparr> \<and>
         hexToRgb_v3 color = \<lparr>r = Some 255, g = Some 74, b = Some 74\<rparr> \<and>
         hexToRgb_v3 color \<noteq> hexToRgb color"
proof -
  from assms have no: "\<not> sixHex (stripHash color)" by (simp add: parsesAsColor_def)
  then have red: "hexToRgb color = \<lparr>r = Some 255, g = Some 0, b = Some 0\<rparr>"
    by (rule hexToRgb_no_match)
  from no have other: "hexToRgb_v3 color = \<lparr>r = Some 255, g = Some 74, b = Some 74\<rparr>"
    by (rule hexToRgb_v3_no_match)
  show ?thesis unfolding red other by simp
qed

theorem invalid_colour_fallback_differs_between_variants_witness:
  "\<not> parsesAsColor ''not-a-color'' \<and>
   hexToRgb ''not-a-color'' = \<lparr>r = Some 255, g = Some 0, b = Some 0\<rparr> \<and>
   hexToRgb_v3 ''not-a-color'' = \<lparr>r = Some 255, g = Some 74, b = Some 74\<rparr> \<and>
   hexToRgb_v3 ''not-a-color'' \<noteq> \<lparr>r = Some 255, g = Some 0, b = Some 0\<rparr>"
proof -
  have no: "\<not> parsesAsColor ''not-a-color''"
    by (simp add: parsesAsColor_def sixHex_def stripHash_def)
  with invalid_colour_fallback_differs_between_variants [OF no] show ?thesis
    by simp
qed

end
